theory Spec2Isabelle
  imports Complex_Main "HOL-Library.Char_ord" "HOL-Library.List_Lexorder"
begin

section \<open>Strings\<close>

text \<open>
  A JavaScript string is a sequence of code units, and \<open>length\<close> counts them. It is
  modelled as \<^typ>\<open>string\<close>, one \<^typ>\<open>char\<close> for each code unit. A value that may be
  \<open>null\<close> or \<open>undefined\<close> is an \<^typ>\<open>'a option\<close>; a string is truthy when it is
  present and not empty, a number when it is present and not zero.
\<close>

definition newline :: char where
  "newline = CHR 0x0A"

definition truthy :: "string option \<Rightarrow> bool" where
  "truthy v = (case v of None \<Rightarrow> False | Some s \<Rightarrow> s \<noteq> [])"

text \<open>\<open>a || b || ... || d\<close> over strings that may be absent, with a string \<open>d\<close> at the
  end of the chain.\<close>

fun firstTruthy :: "string option list \<Rightarrow> string \<Rightarrow> string" where
  "firstTruthy [] d = d"
| "firstTruthy (v # vs) d =
     (case v of
        None \<Rightarrow> firstTruthy vs d
      | Some s \<Rightarrow> if s \<noteq> [] then s else firstTruthy vs d)"

text \<open>\<open>text.split("\n")\<close>: the pieces between the newlines, at least one piece.\<close>

fun splitNewline :: "string \<Rightarrow> string list" where
  "splitNewline [] = [[]]"
| "splitNewline (c # cs) =
     (if c = newline then [] # splitNewline cs
      else (case splitNewline cs of
              [] \<Rightarrow> [[c]]
            | l # ls \<Rightarrow> (c # l) # ls))"

text \<open>\<open>s.slice(a, b)\<close> for \<open>0 \<le> a \<le> b\<close>: the code units from index \<open>a\<close> up to \<open>b\<close>,
  cut at the end of the string.\<close>

definition slice :: "string \<Rightarrow> nat \<Rightarrow> nat \<Rightarrow> string" where
  "slice s a b = take (b - a) (drop a s)"

text \<open>\<open>xs.join(sep)\<close>.\<close>

fun joinWith :: "string \<Rightarrow> string list \<Rightarrow> string" where
  "joinWith sep [] = []"
| "joinWith sep [x] = x"
| "joinWith sep (x # y # ys) = x @ sep @ joinWith sep (y # ys)"

text \<open>\<open>s.trim()\<close> removes white space and line terminators at both ends; among the code
  units below 256 these are tab, line feed, vertical tab, form feed, carriage return,
  space and no-break space.\<close>

definition isSpace :: "char \<Rightarrow> bool" where
  "isSpace c \<longleftrightarrow> c \<in> {CHR 0x09, CHR 0x0A, CHR 0x0B, CHR 0x0C, CHR 0x0D, CHR 0x20, CHR 0xA0}"

definition trim :: "string \<Rightarrow> string" where
  "trim s = rev (dropWhile isSpace (rev (dropWhile isSpace s)))"

text \<open>\<open>String(n)\<close> for an integer below \<open>10^21\<close>: its decimal digits.\<close>

definition digitChar :: "nat \<Rightarrow> char" where
  "digitChar d = ''0123456789'' ! d"

fun digits :: "nat \<Rightarrow> string" where
  "digits n = (if n < 10 then [digitChar n] else digits (n div 10) @ [digitChar (n mod 10)])"

declare digits.simps [simp del]

definition showInt :: "int \<Rightarrow> string" where
  "showInt i = (if i < 0 then CHR ''-'' # digits (nat (- i)) else digits (nat i))"

text \<open>\<open>formatCount(n)\<close>, index.js lines 268 to 271, for a count: \<open>toLocaleString("en-US")\<close>
  writes the digits in groups of three, separated by commas.\<close>

fun groupRev :: "string \<Rightarrow> string" where
  "groupRev (a # b # c # d # rest) = a # b # c # CHR '','' # groupRev (d # rest)"
| "groupRev ds = ds"

definition formatCount :: "nat \<Rightarrow> string" where
  "formatCount n = rev (groupRev (rev (digits n)))"

text \<open>\<open>n === 1 ? "" : "s"\<close>.\<close>

definition plural :: "nat \<Rightarrow> string" where
  "plural n = (if n = 1 then [] else ''s'')"

section \<open>Numbers\<close>

text \<open>
  A JavaScript number is an IEEE 754 double. The values that occur here are counts
  (array lengths, below \<open>2^32\<close>), instants in milliseconds, and quotients and products of
  these: all far from overflow and from the subnormal range. A finite double is modelled
  as the rational it denotes, and an arithmetic operation as the exact operation followed
  by \<open>toDouble\<close>, rounding to the nearest number with a 53 bit significand, ties to the
  even significand.
\<close>

fun bitlen :: "nat \<Rightarrow> nat" where
  "bitlen n = (if n = 0 then 0 else Suc (bitlen (n div 2)))"

declare bitlen.simps [simp del]

text \<open>For \<open>x > 0\<close>, the exponent \<open>e\<close> with \<open>2^e \<le> x < 2^(e+1)\<close>.\<close>

definition ilog2 :: "rat \<Rightarrow> int" where
  "ilog2 x =
     (let p = fst (quotient_of x); q = snd (quotient_of x);
          d = int (bitlen (nat p)) - int (bitlen (nat q))
      in if 2 powi d \<le> x then d else d - 1)"

definition roundHalfEven :: "rat \<Rightarrow> int" where
  "roundHalfEven x =
     (let f = \<lfloor>x\<rfloor>; d = x - of_int f
      in if d < 1 / 2 then f
         else if 1 / 2 < d then f + 1
         else if even f then f else f + 1)"

definition toDouble :: "rat \<Rightarrow> rat" where
  "toDouble x =
     (if x = 0 then 0
      else let e = ilog2 \<bar>x\<bar> - 52;
               m = roundHalfEven (\<bar>x\<bar> / 2 powi e)
           in sgn x * of_int m * 2 powi e)"

text \<open>\<open>a / b\<close> on two counts, \<open>x * y\<close> and \<open>x + y\<close> on doubles. The source divides
  only by numbers it has checked to be non-zero.\<close>

definition divCounts :: "nat \<Rightarrow> nat \<Rightarrow> rat" where
  "divCounts a b = toDouble (of_nat a / of_nat b)"

definition mulDouble :: "rat \<Rightarrow> rat \<Rightarrow> rat" where
  "mulDouble x y = toDouble (x * y)"

definition addDouble :: "rat \<Rightarrow> rat \<Rightarrow> rat" where
  "addDouble x y = toDouble (x + y)"

definition divDouble :: "rat \<Rightarrow> rat \<Rightarrow> rat" where
  "divDouble x y = toDouble (x / y)"

text \<open>\<open>Math.round(x)\<close>: the integer closest to \<open>x\<close>, the larger one at a tie.\<close>

definition mathRound :: "rat \<Rightarrow> int" where
  "mathRound x = \<lfloor>x + 1 / 2\<rfloor>"

text \<open>\<open>Math.round((a / b) * 100)\<close>, as written at lines 375 and 515.\<close>

definition roundedPercent :: "nat \<Rightarrow> nat \<Rightarrow> int" where
  "roundedPercent a b = mathRound (mulDouble (divCounts a b) 100)"

text \<open>\<open>x.toFixed(1)\<close> for \<open>0 \<le> x < 10^21\<close>: the integer \<open>n\<close> closest to \<open>10 x\<close> (the larger
  one at a tie), written with one digit after the point.\<close>

definition toFixed1 :: "rat \<Rightarrow> string" where
  "toFixed1 x = (let n = nat \<lfloor>x * 10 + 1 / 2\<rfloor> in digits (n div 10) @ ''.'' @ digits (n mod 10))"

text \<open>\<open>dayjs(a).diff(dayjs(b), "hour", true)\<close> on two instants given in milliseconds:
  the difference divided by the milliseconds of an hour, not truncated.\<close>

definition diffHours :: "int \<Rightarrow> int \<Rightarrow> rat" where
  "diffHours a b = toDouble (of_int (a - b) / 3600000)"

section \<open>Sorting\<close>

text \<open>
  \<open>Array.prototype.sort(cmp)\<close> is stable: elements that compare equal keep their order.
  With a consistent comparator every stable sort returns the same array, here built by
  insertion. An element goes in front of the first later element it does not compare
  greater than.
\<close>

fun insertBy :: "('a \<Rightarrow> 'a \<Rightarrow> 'b::{zero,ord}) \<Rightarrow> 'a \<Rightarrow> 'a list \<Rightarrow> 'a list" where
  "insertBy cmp x [] = [x]"
| "insertBy cmp x (y # ys) = (if cmp x y \<le> 0 then x # y # ys else y # insertBy cmp x ys)"

definition sortBy :: "('a \<Rightarrow> 'a \<Rightarrow> 'b::{zero,ord}) \<Rightarrow> 'a list \<Rightarrow> 'a list" where
  "sortBy cmp xs = foldr (insertBy cmp) xs []"

text \<open>
  \<open>String.prototype.localeCompare\<close> is a builtin of the runtime: the order it gives is the
  collation of the locale the process runs in, which is no part of the repository. The
  functions that call it take it as their first argument \<open>localeCompare\<close>, where
  \<open>localeCompare a b\<close> is \<open>a.localeCompare(b)\<close>. The language standard asks of it what it asks
  of every comparator given to \<open>sort\<close>, to be consistent: a string compares equal to itself,
  the sign of the result turns over when the two strings change places, and what is not
  greater is transitive. Two different strings may compare equal.
\<close>

definition consistent :: "('a \<Rightarrow> 'a \<Rightarrow> int) \<Rightarrow> bool" where
  "consistent cmp \<longleftrightarrow>
     (\<forall>a. cmp a a = 0) \<and>
     (\<forall>a b. cmp a b < 0 \<longleftrightarrow> 0 < cmp b a) \<and>
     (\<forall>a b c. cmp a b \<le> 0 \<and> cmp b c \<le> 0 \<longrightarrow> cmp a c \<le> 0)"
section \<open>Activity records\<close>

text \<open>
  The shape the collectors give to a commit, a change request and an issue (index.js
  lines 675 to 715 and 828 to 906). A field that the object lacks, or that is \<open>null\<close>, is
  \<open>None\<close>. A timestamp is an ISO string that \<open>dayjs\<close> parses; the model keeps the instant
  it denotes, in milliseconds. \<open>id\<close> and \<open>iid\<close> are the numbers of a change request or
  of an issue.
\<close>

record author =
  name :: "string option"
  username :: "string option"
  email :: "string option"

record item =
  author :: "author option"
  author_name :: "string option"
  author_email :: "string option"
  title :: "string option"
  iid :: "nat option"
  item_id :: "nat option"
  web_url :: "string option"
  projectName :: "string option"
  created_at :: "int option"
  updated_at :: "int option"
  merged_at :: "int option"
  closed_at :: "int option"

text \<open>The result of one collector for one repository.\<close>

record project =
  projectId :: string
  projectName :: string
  projectPath :: string
  commits :: "item list"
  mrsOpened :: "item list"
  mrsMerged :: "item list"
  issuesOpened :: "item list"
  issuesClosed :: "item list"
  monthIssuesOpened :: "item list"
  monthIssuesClosed :: "item list"

section \<open>Author resolution\<close>

text \<open>\<open>resolveAuthorName(entry)\<close>, index.js lines 241 to 249. \<open>entry.author?.name\<close> is
  absent when the entry has no \<open>author\<close> object.\<close>

definition authorField :: "(author \<Rightarrow> string option) \<Rightarrow> item \<Rightarrow> string option" where
  "authorField f entry = (case item.author entry of None \<Rightarrow> None | Some a \<Rightarrow> f a)"

definition resolveAuthorName :: "item option \<Rightarrow> string" where
  "resolveAuthorName entry =
     (case entry of
        None \<Rightarrow> ''Unknown''
      | Some e \<Rightarrow>
          firstTruthy
            [authorField author.name e,
             authorField author.username e,
             author_name e,
             author_email e,
             authorField author.email e]
            ''Unknown'')"

section \<open>Contributor summaries\<close>

text \<open>
  \<open>buildMemberSummaries\<close>, index.js lines 324 to 384, with the five arrays of its
  argument object as five arguments. The \<open>Map\<close> from names to summaries keeps its keys
  in the order of their first insertion: it is the list of its values, with one entry
  for each name.
\<close>

record member =
  name :: string
  commits :: nat
  commitPct :: int
  mergedMrs :: nat
  openedMrs :: nat
  issuesOpened :: nat
  issuesClosed :: nat

definition newMember :: "string \<Rightarrow> member" where
  "newMember n =
     \<lparr>member.name = n, member.commits = 0, commitPct = 0, mergedMrs = 0, openedMrs = 0,
      member.issuesOpened = 0, member.issuesClosed = 0\<rparr>"

text \<open>\<open>ensure(name)\<close> adds an entry when the map has none for the name.\<close>

definition ensure :: "string \<Rightarrow> member list \<Rightarrow> member list" where
  "ensure n members =
     (if n \<in> member.name ` set members then members else members @ [newMember n])"

text \<open>\<open>const entry = ensure(name); entry.field += 1\<close>.\<close>

definition bump :: "(member \<Rightarrow> member) \<Rightarrow> member list \<Rightarrow> item \<Rightarrow> member list" where
  "bump incr members entry =
     (let n = resolveAuthorName (Some entry)
      in map (\<lambda>m. if member.name m = n then incr m else m) (ensure n members))"

definition compareMembers :: "(string \<Rightarrow> string \<Rightarrow> int) \<Rightarrow> member \<Rightarrow> member \<Rightarrow> int" where
  "compareMembers localeCompare a b =
     (if mergedMrs b \<noteq> mergedMrs a then int (mergedMrs b) - int (mergedMrs a)
      else if member.commits b \<noteq> member.commits a
        then int (member.commits b) - int (member.commits a)
      else if member.issuesClosed b \<noteq> member.issuesClosed a
        then int (member.issuesClosed b) - int (member.issuesClosed a)
      else localeCompare (member.name a) (member.name b))"

definition countMembers ::
  "item list \<Rightarrow> item list \<Rightarrow> item list \<Rightarrow> item list \<Rightarrow> item list \<Rightarrow> member list" where
  "countMembers commitList mergedList openedList issuesOpenedList issuesClosedList =
     (let m1 = foldl (bump (\<lambda>m. m\<lparr>member.commits := member.commits m + 1\<rparr>)) [] commitList;
          m2 = foldl (bump (\<lambda>m. m\<lparr>mergedMrs := mergedMrs m + 1\<rparr>)) m1 mergedList;
          m3 = foldl (bump (\<lambda>m. m\<lparr>openedMrs := openedMrs m + 1\<rparr>)) m2 openedList;
          m4 = foldl (bump (\<lambda>m. m\<lparr>member.issuesOpened := member.issuesOpened m + 1\<rparr>)) m3
                 issuesOpenedList
      in foldl (bump (\<lambda>m. m\<lparr>member.issuesClosed := member.issuesClosed m + 1\<rparr>)) m4
           issuesClosedList)"

definition setCommitPct :: "nat \<Rightarrow> member \<Rightarrow> member" where
  "setCommitPct totalCommits entry =
     entry\<lparr>commitPct :=
             (if totalCommits \<noteq> 0 then roundedPercent (member.commits entry) totalCommits
              else 0)\<rparr>"

definition buildMemberSummaries ::
  "(string \<Rightarrow> string \<Rightarrow> int) \<Rightarrow>
   item list \<Rightarrow> item list \<Rightarrow> item list \<Rightarrow> item list \<Rightarrow> item list \<Rightarrow> member list" where
  "buildMemberSummaries localeCompare commitList mergedList openedList issuesOpenedList
     issuesClosedList =
     (let totalCommits = length commitList;
          members =
            countMembers commitList mergedList openedList issuesOpenedList issuesClosedList;
          summaries = map (setCommitPct totalCommits) members
      in sortBy (compareMembers localeCompare) summaries)"

text \<open>The ranking in the words of the specification: more merged requests first, then
  more commits, then more closed issues, then the earlier name, in the order that the
  collation gives to the names.\<close>

definition rankedBefore :: "(string \<Rightarrow> string \<Rightarrow> int) \<Rightarrow> member \<Rightarrow> member \<Rightarrow> bool" where
  "rankedBefore localeCompare a b \<longleftrightarrow>
     mergedMrs b < mergedMrs a \<or>
     (mergedMrs a = mergedMrs b \<and>
       (member.commits b < member.commits a \<or>
        (member.commits a = member.commits b \<and>
          (member.issuesClosed b < member.issuesClosed a \<or>
           (member.issuesClosed a = member.issuesClosed b \<and>
            localeCompare (member.name a) (member.name b) < 0)))))"

text \<open>Two summaries tie when the comparator has nothing to tell them apart: equal counts,
  and names that the collation takes for equal. A collation separates the names when it
  takes no two different names for equal.\<close>

definition tied :: "(string \<Rightarrow> string \<Rightarrow> int) \<Rightarrow> member \<Rightarrow> member \<Rightarrow> bool" where
  "tied localeCompare a b \<longleftrightarrow>
     mergedMrs a = mergedMrs b \<and> member.commits a = member.commits b \<and>
     member.issuesClosed a = member.issuesClosed b \<and>
     localeCompare (member.name a) (member.name b) = 0"

definition separates :: "(string \<Rightarrow> string \<Rightarrow> int) \<Rightarrow> bool" where
  "separates localeCompare \<longleftrightarrow> (\<forall>a b. localeCompare a b = 0 \<longrightarrow> a = b)"

text \<open>The percentage in the words of the specification: the integer rounding of 100 times
  the count divided by the total, and the shares that are halfway between two integers.\<close>

definition specPercent :: "nat \<Rightarrow> nat \<Rightarrow> int" where
  "specPercent c t = mathRound (100 * of_nat c / of_nat t)"

definition halfway :: "nat \<Rightarrow> nat \<Rightarrow> bool" where
  "halfway c t \<longleftrightarrow>
     (let share = 100 * of_nat c / of_nat t :: rat in share - of_int \<lfloor>share\<rfloor> = 1 / 2)"
section \<open>Rendering\<close>

text \<open>
  The literals of the source hold pictographs and typographic marks outside ASCII. Each is
  kept as a constant: the bytes that the literal has in the source file. Their number is
  not the number of code units of the literal; no statement below depends on the length
  of a string that holds one.
\<close>

definition glyphGear :: string where
  "glyphGear =
     [CHR 0xE2, CHR 0x80, CHR 0x9A, CHR 0xC3, CHR 0xB6, CHR 0xC3, CHR 0xB4, CHR 0xC3,
      CHR 0x94, CHR 0xE2, CHR 0x88, CHR 0x8F, CHR 0xC3, CHR 0xA8]"

definition glyphReceipt :: string where
  "glyphReceipt =
     [CHR 0xEF, CHR 0xA3, CHR 0xBF, CHR 0xC3, CHR 0xBC, CHR 0xC3, CHR 0x9F, CHR 0xC3,
      CHR 0xA6]"

definition glyphMemo :: string where
  "glyphMemo =
     [CHR 0xEF, CHR 0xA3, CHR 0xBF, CHR 0xC3, CHR 0xBC, CHR 0xC3, CHR 0xAC, CHR 0xC3,
      CHR 0xB9]"

definition glyphCheck :: string where
  "glyphCheck =
     [CHR 0xE2, CHR 0x80, CHR 0x9A, CHR 0xC3, CHR 0xBA, CHR 0xC3, CHR 0x96]"

definition glyphPlus :: string where
  "glyphPlus =
     [CHR 0xE2, CHR 0x80, CHR 0x9A, CHR 0xC3, CHR 0xBB, CHR 0xC3, CHR 0xAF]"

definition glyphTick :: string where
  "glyphTick =
     [CHR 0xE2, CHR 0x80, CHR 0x9A, CHR 0xC3, CHR 0xBA, CHR 0xC3, CHR 0xAE, CHR 0xC3,
      CHR 0x94, CHR 0xE2, CHR 0x88, CHR 0x8F, CHR 0xC3, CHR 0xA8]"

definition bullet :: string where
  "bullet =
     [CHR 0xE2, CHR 0x80, CHR 0x9A, CHR 0xC3, CHR 0x84, CHR 0xC2, CHR 0xA2]"

definition emDash :: string where
  "emDash =
     [CHR 0xE2, CHR 0x80, CHR 0x9A, CHR 0xC3, CHR 0x84, CHR 0xC3, CHR 0xAE]"

definition glyphFolder :: string where
  "glyphFolder =
     [CHR 0xEF, CHR 0xA3, CHR 0xBF, CHR 0xC3, CHR 0xBC, CHR 0xC3, CHR 0xAC, CHR 0xC3,
      CHR 0x87]"

definition glyphOctopus :: string where
  "glyphOctopus =
     [CHR 0xEF, CHR 0xA3, CHR 0xBF, CHR 0xC3, CHR 0xBC, CHR 0xC3, CHR 0xAA, CHR 0xC3,
      CHR 0xB4]"

definition glyphFox :: string where
  "glyphFox =
     [CHR 0xEF, CHR 0xA3, CHR 0xBF, CHR 0xC3, CHR 0xBC, CHR 0xC2, CHR 0xB6, CHR 0xC3,
      CHR 0xA4]"

definition ellipsis :: string where
  "ellipsis =
     [CHR 0xE2, CHR 0x80, CHR 0x9A, CHR 0xC3, CHR 0x84, CHR 0xC2, CHR 0xB6]"

definition glyphSparkles :: string where
  "glyphSparkles =
     [CHR 0xE2, CHR 0x80, CHR 0x9A, CHR 0xC3, CHR 0xBA, CHR 0xC2, CHR 0xAE]"

definition glyphBug :: string where
  "glyphBug =
     [CHR 0xEF, CHR 0xA3, CHR 0xBF, CHR 0xC3, CHR 0xBC, CHR 0xC3, CHR 0xAA, CHR 0xC3,
      CHR 0xB5]"

definition glyphRocket :: string where
  "glyphRocket =
     [CHR 0xEF, CHR 0xA3, CHR 0xBF, CHR 0xC3, CHR 0xBC, CHR 0xC3, CHR 0xB6, CHR 0xC3,
      CHR 0x84]"

definition glyphBriefcase :: string where
  "glyphBriefcase =
     [CHR 0xEF, CHR 0xA3, CHR 0xBF, CHR 0xC3, CHR 0xBC, CHR 0xC3, CHR 0xAD, CHR 0xC2,
      CHR 0xBA]"

definition glyphChart :: string where
  "glyphChart =
     [CHR 0xEF, CHR 0xA3, CHR 0xBF, CHR 0xC3, CHR 0xBC, CHR 0xC3, CHR 0xAC, CHR 0xC3,
      CHR 0xA4]"

definition glyphInfo :: string where
  "glyphInfo =
     [CHR 0xE2, CHR 0x80, CHR 0x9A, CHR 0xC3, CHR 0x91, CHR 0xCF, CHR 0x80, CHR 0xC3,
      CHR 0x94, CHR 0xE2, CHR 0x88, CHR 0x8F, CHR 0xC3, CHR 0xA8]"

definition enDash :: string where
  "enDash =
     [CHR 0xE2, CHR 0x80, CHR 0x9A, CHR 0xC3, CHR 0x84, CHR 0xC3, CHR 0xAC]"

text \<open>\<open>formatTable(rows)\<close>, index.js lines 273 to 291, on rows of strings.\<close>

definition columnWidth :: "string list list \<Rightarrow> nat \<Rightarrow> nat" where
  "columnWidth rows idx =
     foldl (\<lambda>w row. if idx < length row then max w (length (row ! idx)) else w) 0 rows"

definition formatRow :: "string list list \<Rightarrow> string list \<Rightarrow> string" where
  "formatRow rows row =
     concat (map (\<lambda>idx. if idx = length row - 1 then row ! idx
                         else row ! idx @
                              replicate (columnWidth rows idx - length (row ! idx) + 2) CHR '' '')
                 [0..<length row])"

definition formatTable :: "string list list \<Rightarrow> string" where
  "formatTable rows =
     (if rows = [] then []
      else ''```text'' @ [newline] @ joinWith [newline] (map (formatRow rows) rows) @
           [newline] @ ''```'')"

text \<open>\<open>formatTeamMetrics\<close>, index.js lines 293 to 322.\<close>

definition formatTeamMetrics ::
  "string \<Rightarrow> nat \<Rightarrow> nat \<Rightarrow> nat \<Rightarrow> nat \<Rightarrow> nat \<Rightarrow> nat \<Rightarrow> nat \<Rightarrow> nat \<Rightarrow> nat \<Rightarrow> string" where
  "formatTeamMetrics organizationSummary totalMRMerged totalMROpened totalCommits
       totalIssuesOpened totalIssuesClosed totalIssuesOpenedMonth totalIssuesClosedMonth
       activeRepos contributors =
     joinWith [newline]
       [''**'' @ glyphGear @ '' Team Metrics**'',
        ''_Totals combine GitLab + GitHub repositories_'',
        formatTable
          [[''Organizations'', organizationSummary],
           [''PRs Merged'', formatCount totalMRMerged],
           [''PRs Opened'', formatCount totalMROpened],
           [''Commits'', formatCount totalCommits],
           [''Issues Opened (day)'', formatCount totalIssuesOpened],
           [''Issues Closed (day)'', formatCount totalIssuesClosed],
           [''Issues Opened (month)'', formatCount totalIssuesOpenedMonth],
           [''Issues Closed (month)'', formatCount totalIssuesClosedMonth],
           [''Active Repos'', formatCount activeRepos],
           [''Contributors'', formatCount contributors]]]"

text \<open>\<open>formatTeamMembers(members, heading)\<close>, index.js lines 386 to 421.\<close>

definition memberParts :: "member \<Rightarrow> string list" where
  "memberParts m =
     (if member.commits m \<noteq> 0
      then [glyphReceipt @ '' '' @ formatCount (member.commits m) @ '' commit'' @
            plural (member.commits m) @
            (if commitPct m \<noteq> 0 then '' ('' @ showInt (commitPct m) @ ''%)'' else [])]
      else []) @
     (if openedMrs m \<noteq> 0
      then [glyphMemo @ '' '' @ formatCount (openedMrs m) @ '' PR'' @ plural (openedMrs m) @
            '' opened'']
      else []) @
     (if mergedMrs m \<noteq> 0
      then [glyphCheck @ '' '' @ formatCount (mergedMrs m) @ '' PR'' @ plural (mergedMrs m) @
            '' merged'']
      else []) @
     (if member.issuesOpened m \<noteq> 0
      then [glyphPlus @ '' '' @ formatCount (member.issuesOpened m) @ '' issue'' @
            plural (member.issuesOpened m) @ '' opened'']
      else []) @
     (if member.issuesClosed m \<noteq> 0
      then [glyphTick @ '' '' @ formatCount (member.issuesClosed m) @ '' issue'' @
            plural (member.issuesClosed m) @ '' closed'']
      else [])"

definition memberLine :: "member \<Rightarrow> string" where
  "memberLine m =
     (let parts = memberParts m;
          parts1 = (if parts = [] then [''MR participation''] else parts)
      in bullet @ '' **'' @ member.name m @ ''** '' @ emDash @ '' '' @
         joinWith '' | '' parts1)"

definition formatTeamMembers :: "member list \<Rightarrow> string \<Rightarrow> string" where
  "formatTeamMembers members heading =
     (let lines = (if heading \<noteq> [] then [heading] else [])
      in if members = []
         then joinWith [newline] (lines @ [''_No member activity captured in this window._''])
         else let topMembers = take 5 members;
                  remaining = length members - length topMembers
              in joinWith [newline]
                   (lines @ [''*Active Today*''] @ map memberLine topMembers @
                    (if length topMembers < length members
                     then [bullet @ '' ...and '' @ digits remaining @
                           '' more active contributor'' @ plural remaining]
                     else [])))"

text \<open>\<open>formatOrgSummary(label, projects)\<close>, index.js lines 423 to 451, and the comparator
  it shares with \<open>formatRepoTable\<close>.\<close>

definition compareProjects :: "(string \<Rightarrow> string \<Rightarrow> int) \<Rightarrow> project \<Rightarrow> project \<Rightarrow> int" where
  "compareProjects localeCompare a b =
     (if length (mrsMerged b) \<noteq> length (mrsMerged a)
      then int (length (mrsMerged b)) - int (length (mrsMerged a))
      else if length (project.commits b) \<noteq> length (project.commits a)
        then int (length (project.commits b)) - int (length (project.commits a))
      else localeCompare (project.projectName a) (project.projectName b))"

definition isGithubProjectId :: "string \<Rightarrow> bool" where
  "isGithubProjectId pid \<longleftrightarrow> CHR ''/'' \<in> set pid"

definition orgLine :: "project \<Rightarrow> string" where
  "orgLine p =
     (let merged = length (mrsMerged p);
          commitCount = length (project.commits p);
          openedCount = length (project.issuesOpened p);
          closedCount = length (project.issuesClosed p);
          parts =
            (if merged \<noteq> 0 then [''PRs: '' @ formatCount merged] else []) @
            (if commitCount \<noteq> 0 then [''Commits: '' @ formatCount commitCount] else []) @
            (if openedCount \<noteq> 0 \<or> closedCount \<noteq> 0
             then [''Issues: +'' @ formatCount openedCount @ ''/-'' @ formatCount closedCount]
             else []);
          summary =
            (if parts \<noteq> [] then joinWith ('' '' @ bullet @ '' '') parts
             else ''No activity recorded'');
          displayName =
            firstTruthy [Some (project.projectName p), Some (projectPath p)] (projectId p);
          icon = (if isGithubProjectId (projectId p) then glyphOctopus else glyphFox)
      in icon @ '' '' @ displayName @ '' '' @ emDash @ '' '' @ summary)"

definition formatOrgSummary ::
  "(string \<Rightarrow> string \<Rightarrow> int) \<Rightarrow> string \<Rightarrow> project list \<Rightarrow> string option" where
  "formatOrgSummary localeCompare label projects =
     (if projects = [] then None
      else let sortedProjects = sortBy (compareProjects localeCompare) projects;
               display = take 3 sortedProjects;
               remaining = length sortedProjects - length display
           in Some (joinWith [newline]
                ([''**'' @ glyphFolder @ '' '' @ label @ ''**''] @ map orgLine display @
                 (if length display < length sortedProjects
                  then [ellipsis @ ''and '' @ digits remaining @ '' more active repo'' @
                        plural remaining @ ''.'']
                  else []))))"

text \<open>
  \<open>formatMajorFeatures(mrs)\<close>, index.js lines 452 to 468. The sort key of a request is
  \<open>merged_at || updated_at || created_at\<close>: the first of the three that is present.
  The collectors copy the three fields from the answers of the services, where a
  timestamp that is not set is \<open>null\<close>; a key that is \<open>None\<close> is this \<open>null\<close>. \<open>dayjs(null)\<close>
  is an invalid date, whose value is \<open>NaN\<close>, and a comparator result of \<open>NaN\<close> counts as
  zero in \<open>sort\<close>. An object that lacks all three fields, whose key is \<open>undefined\<close>
  and for which \<open>dayjs\<close> gives the time of the call, has no counterpart here.
\<close>

definition timeKey :: "item \<Rightarrow> int option" where
  "timeKey a =
     (case merged_at a of
        Some t \<Rightarrow> Some t
      | None \<Rightarrow> (case updated_at a of Some t \<Rightarrow> Some t | None \<Rightarrow> created_at a))"

definition compareMrTime :: "item \<Rightarrow> item \<Rightarrow> int" where
  "compareMrTime a b =
     (case timeKey b of
        None \<Rightarrow> 0
      | Some bTime \<Rightarrow> (case timeKey a of None \<Rightarrow> 0 | Some aTime \<Rightarrow> bTime - aTime))"

text \<open>\<open>${x.iid || x.id || "?"}\<close>.\<close>

definition numberOrQuestion :: "item \<Rightarrow> string" where
  "numberOrQuestion x =
     (case iid x of
        Some n \<Rightarrow> if n \<noteq> 0 then digits n
                  else (case item_id x of
                          Some k \<Rightarrow> if k \<noteq> 0 then digits k else ''?''
                        | None \<Rightarrow> ''?'')
      | None \<Rightarrow> (case item_id x of
                   Some k \<Rightarrow> if k \<noteq> 0 then digits k else ''?''
                 | None \<Rightarrow> ''?''))"

definition featureLine :: "item \<Rightarrow> string" where
  "featureLine mr =
     (let title1 = firstTruthy [title mr] (''Merge Request #'' @ numberOrQuestion mr);
          mrLink = (case web_url mr of
                      None \<Rightarrow> title1
                    | Some url \<Rightarrow> if url \<noteq> [] then ''['' @ title1 @ ''](''@ url @ '')''
                                  else title1);
          projectPart = (case item.projectName mr of
                           None \<Rightarrow> []
                         | Some n \<Rightarrow> if n \<noteq> [] then '' ('' @ n @ '')'' else [])
      in bullet @ '' '' @ mrLink @ projectPart)"

definition majorFeaturesTop :: "item list \<Rightarrow> item list" where
  "majorFeaturesTop mrs = take 5 (sortBy compareMrTime mrs)"

definition formatMajorFeatures :: "item list \<Rightarrow> string option" where
  "formatMajorFeatures mrs =
     (if mrs = [] then None
      else Some (joinWith [newline]
             ([''**'' @ glyphSparkles @ '' Major Features Shipped**''] @
              map featureLine (majorFeaturesTop mrs))))"

text \<open>The sort key in the words of the specification: the most recent of the three
  timestamps.\<close>

definition mostRecent :: "item \<Rightarrow> int option" where
  "mostRecent a =
     (let ts = List.map_filter (\<lambda>x. x) [merged_at a, updated_at a, created_at a]
      in if ts = [] then None else Some (foldl max (hd ts) ts))"

text \<open>\<open>formatBugActivity(issuesOpened, issuesClosed)\<close>, index.js lines 470 to 502.\<close>

definition isSameDay :: "item \<Rightarrow> bool" where
  "isSameDay issue =
     (case closed_at issue of
        None \<Rightarrow> False
      | Some closedAt \<Rightarrow>
          (case created_at issue of
             None \<Rightarrow> False
           | Some createdAt \<Rightarrow> diffHours closedAt createdAt \<le> 24))"

definition issueLine :: "item \<Rightarrow> string" where
  "issueLine issue =
     bullet @ '' '' @ firstTruthy [title issue] (''Issue #'' @ numberOrQuestion issue)"

definition formatBugActivity :: "item list \<Rightarrow> item list \<Rightarrow> string" where
  "formatBugActivity openedIssues closedIssues =
     (let sameDay = length (filter isSameDay closedIssues);
          fixedCount = length closedIssues;
          openedCount = length openedIssues;
          sameDayValue =
            (if fixedCount \<noteq> 0 then formatCount sameDay @ ''/'' @ formatCount fixedCount
             else ''0'');
          rows =
            [[''Fixed'', formatCount fixedCount @ '' issue'' @ plural fixedCount],
             [''Same-day fixes'', sameDayValue],
             [''Opened'', formatCount openedCount @ '' issue'' @ plural openedCount]];
          highlights = take 3 closedIssues
      in joinWith [newline]
           ([''**'' @ glyphBug @ '' Bug Activity**'', formatTable rows] @
            (if highlights \<noteq> [] then ''**Highlights**'' # map issueLine highlights
             else if fixedCount = 0 \<and> openedCount = 0
               then [''_No bug activity recorded in this window._'']
             else [])))"

text \<open>\<open>formatVelocityHighlights\<close>, index.js lines 504 to 534. \<open>mergeRate\<close> is lines 514
  and 515: the denominator is \<open>totalMROpened || totalMRMerged || 1\<close>.\<close>

definition mergeRate :: "nat \<Rightarrow> nat \<Rightarrow> int" where
  "mergeRate totalMRMerged totalMROpened =
     (let denominator =
            (if totalMROpened \<noteq> 0 then totalMROpened
             else if totalMRMerged \<noteq> 0 then totalMRMerged
             else 1)
      in roundedPercent totalMRMerged denominator)"

definition mergeDurations :: "item list \<Rightarrow> rat list" where
  "mergeDurations merged =
     sortBy (\<lambda>a b. a - b)
       (List.map_filter
          (\<lambda>mr. case merged_at mr of
                   None \<Rightarrow> None
                 | Some mergedAt \<Rightarrow>
                     (case created_at mr of
                        None \<Rightarrow> None
                      | Some createdAt \<Rightarrow> Some \<bar>diffHours mergedAt createdAt\<bar>))
          merged)"

definition turnaroundLines :: "item list \<Rightarrow> string list" where
  "turnaroundLines merged =
     (let durations = mergeDurations merged
      in if durations = [] then []
         else let mid = length durations div 2;
                  median =
                    (if length durations mod 2 \<noteq> 0 then durations ! mid
                     else divDouble (addDouble (durations ! (mid - 1)) (durations ! mid)) 2);
                  label = (if median \<le> 24 then ''Fast turnaround'' else ''Median merge time'')
              in [bullet @ '' '' @ label @ '': '' @ toFixed1 median @ ''h''])"

definition velocityLines :: "nat \<Rightarrow> nat \<Rightarrow> nat \<Rightarrow> nat \<Rightarrow> item list \<Rightarrow> bool \<Rightarrow> string list" where
  "velocityLines totalMRMerged totalMROpened totalCommits totalIssuesClosed merged hasMultiOrg =
     [''**'' @ glyphRocket @ '' Velocity Highlights**'',
      bullet @ '' Merge rate: '' @ showInt (mergeRate totalMRMerged totalMROpened) @ ''%''] @
     (if totalCommits \<noteq> 0 then [bullet @ '' Commits: '' @ formatCount totalCommits] else []) @
     (if totalIssuesClosed \<noteq> 0
      then [bullet @ '' Issues closed: '' @ formatCount totalIssuesClosed]
      else []) @
     (if hasMultiOrg then [bullet @ '' Multi-org delivery '' @ glyphBriefcase] else []) @
     turnaroundLines merged"

definition formatVelocityHighlights ::
  "nat \<Rightarrow> nat \<Rightarrow> nat \<Rightarrow> nat \<Rightarrow> item list \<Rightarrow> bool \<Rightarrow> string option" where
  "formatVelocityHighlights totalMRMerged totalMROpened totalCommits totalIssuesClosed merged
       hasMultiOrg =
     (if totalMRMerged = 0 \<and> totalCommits = 0 \<and> totalIssuesClosed = 0 then None
      else Some (joinWith [newline]
             (velocityLines totalMRMerged totalMROpened totalCommits totalIssuesClosed merged
                hasMultiOrg)))"


text \<open>\<open>formatCommitBreakdown(members, totalCommits)\<close>, index.js lines 536 to 549.\<close>

definition formatCommitBreakdown :: "member list \<Rightarrow> nat \<Rightarrow> string option" where
  "formatCommitBreakdown members totalCommits =
     (if totalCommits = 0 then None
      else let topMembers = take 8 (filter (\<lambda>m. member.commits m \<noteq> 0) members);
               rows =
                 [[''Contributor'', ''Commits'', ''%''],
                  [''-----------'', ''-------'', ''--'']] @
                 map (\<lambda>m. [member.name m, digits (member.commits m),
                            (if commitPct m \<noteq> 0 then showInt (commitPct m) @ ''%''
                             else ''0%'')])
                     topMembers @
                 [[''TOTAL'', digits totalCommits, ''100%'']]
           in Some (joinWith [newline] [''**Commit Breakdown**'', formatTable rows]))"

text \<open>\<open>formatRepoTable(projects, totals)\<close>, index.js lines 551 to 571.\<close>

definition formatRepoTable ::
  "(string \<Rightarrow> string \<Rightarrow> int) \<Rightarrow> project list \<Rightarrow> nat \<Rightarrow> nat \<Rightarrow> string option" where
  "formatRepoTable localeCompare projects totalMRMerged totalCommits =
     (if projects = [] then None
      else let sortedProjects = sortBy (compareProjects localeCompare) projects;
               rows =
                 [[''Repo'', ''PRs'', ''Commits''],
                  [''----'', ''---'', ''-------'']] @
                 map (\<lambda>p. [project.projectName p, digits (length (mrsMerged p)),
                            digits (length (project.commits p))])
                     (take 10 sortedProjects) @
                 [[''TOTAL'', digits totalMRMerged, digits totalCommits]]
           in Some (joinWith [newline]
                [''**'' @ glyphChart @ '' By Repository (Top 10)**'', formatTable rows]))"

text \<open>\<open>formatInactiveSummary(projects)\<close>, index.js lines 573 to 576.\<close>

definition formatInactiveSummary :: "project list \<Rightarrow> string option" where
  "formatInactiveSummary projects =
     (if projects = [] then None
      else Some (''_'' @ glyphInfo @ '' No tracked activity in '' @ digits (length projects) @
                 '' repo'' @ plural (length projects) @ '' this window._''))"

section \<open>The chunker and the dispatcher\<close>

text \<open>
  \<open>chunkMessage(text, limit = 1800)\<close>, index.js lines 578 to 607. The limit is a count
  of code units. The inner \<open>while (index < line.length)\<close> loop advances \<open>index\<close> by
  \<open>limit\<close>; with a limit of zero it never ends, so the loop is a partial function and not
  returning is \<open>None\<close>.
\<close>

partial_function (option) hardSplit ::
  "string \<Rightarrow> nat \<Rightarrow> nat \<Rightarrow> string list \<Rightarrow> string list option" where
  "hardSplit line limit index chunks =
     (if index < length line
      then hardSplit line limit (index + limit) (chunks @ [slice line index (index + limit)])
      else Some chunks)"

text \<open>One iteration of \<open>for (const line of lines)\<close> on the state \<open>(chunks, current)\<close>.\<close>

definition chunkStep ::
  "nat \<Rightarrow> string list \<times> string \<Rightarrow> string \<Rightarrow> (string list \<times> string) option" where
  "chunkStep limit st line =
     (let chunks = fst st; current = snd st;
          candidate = (if current \<noteq> [] then current @ [newline] @ line else line)
      in if length candidate \<le> limit then Some (chunks, candidate)
         else let chunks1 = (if current \<noteq> [] then chunks @ [current] else chunks)
              in if length line \<le> limit then Some (chunks1, line)
                 else (case hardSplit line limit 0 chunks1 of
                         None \<Rightarrow> None
                       | Some chunks2 \<Rightarrow> Some (chunks2, [])))"

fun chunkLoop ::
  "nat \<Rightarrow> string list \<Rightarrow> string list \<times> string \<Rightarrow> (string list \<times> string) option" where
  "chunkLoop limit [] st = Some st"
| "chunkLoop limit (line # lines) st =
     (case chunkStep limit st line of
        None \<Rightarrow> None
      | Some st1 \<Rightarrow> chunkLoop limit lines st1)"

definition chunkMessage :: "string \<Rightarrow> nat \<Rightarrow> string list option" where
  "chunkMessage text limit =
     (if text = [] then Some []
      else (case chunkLoop limit (splitNewline text) ([], []) of
              None \<Rightarrow> None
            | Some st \<Rightarrow>
                Some (if snd st \<noteq> [] then fst st @ [snd st] else fst st)))"

definition defaultLimit :: nat where
  "defaultLimit = 1800"

text \<open>\<open>blocks.filter(Boolean)\<close>.\<close>

definition compact :: "string option list \<Rightarrow> string list" where
  "compact blocks =
     List.map_filter
       (\<lambda>b. case b of None \<Rightarrow> None | Some s \<Rightarrow> if s \<noteq> [] then Some s else None)
       blocks"

text \<open>\<open>postMessageBlocks(blocks)\<close>, index.js lines 609 to 618. The result is the list of
  the payloads posted to the webhook, in order.\<close>

definition postMessageBlocks :: "string option list \<Rightarrow> string list option" where
  "postMessageBlocks blocks =
     (let content = trim (joinWith [newline, newline] (compact blocks))
      in if content = [] then Some []
         else (case chunkMessage content defaultLimit of
                 None \<Rightarrow> None
               | Some chunks \<Rightarrow> Some (filter (\<lambda>chunk. trim chunk \<noteq> []) chunks)))"

text \<open>The pieces of a hard split, as a total function: what \<^const>\<open>hardSplit\<close> appends
  when the limit is positive.\<close>

function chop :: "nat \<Rightarrow> string \<Rightarrow> string list" where
  "chop n s = (if n = 0 \<or> s = [] then [] else take n s # chop n (drop n s))"
  by pat_completeness auto
termination
  by (relation "measure (\<lambda>(n, s). length s)") auto

declare chop.simps [simp del]

text \<open>Putting chunks back together: \<open>weave [s0, s1, ..., sn] [c1, ..., cn]\<close> is
  \<open>s0 c1 s1 ... cn sn\<close>.\<close>

fun weave :: "string list \<Rightarrow> string list \<Rightarrow> string" where
  "weave (s # seps) (c # chunks) = s @ c @ weave seps chunks"
| "weave seps [] = concat seps"
| "weave [] chunks = concat chunks"

section \<open>The report\<close>

text \<open>
  The part of \<open>main\<close> after the collectors have returned, index.js lines 972 to 1086 and
  1113 to 1115, on the list \<open>results\<close> of the results of both platforms. The window
  label and the values read from the environment are in \<open>config\<close>; \<open>isClientProject\<close>,
  the membership test in the configured set of client identifiers, is an argument, and so
  is the collation \<open>localeCompare\<close> of the runtime.
\<close>

datatype exit = NoProjectsDiscovered

record config =
  reportTitle :: string
  windowLabel :: string
  orgLabelInternal :: string
  orgLabelClient :: string

record report =
  summaryLine :: string
  teamMetricsBlock :: string
  teamMembersBlock :: string
  internalBlock :: "string option"
  clientBlock :: "string option"
  majorFeaturesBlock :: "string option"
  bugActivityBlock :: string
  velocityHighlightBlock :: "string option"
  commitBreakdownBlock :: "string option"
  repoTableBlock :: "string option"
  inactiveSummaryBlock :: "string option"
  organizationalBlocks :: "string list"
  projectBlocks :: "string list"
  teamBlocks :: "string list"
  messages :: "string list list"

definition hasActivity :: "project \<Rightarrow> bool" where
  "hasActivity p \<longleftrightarrow>
     project.commits p \<noteq> [] \<or> mrsOpened p \<noteq> [] \<or> mrsMerged p \<noteq> [] \<or>
     project.issuesOpened p \<noteq> [] \<or> project.issuesClosed p \<noteq> []"

definition buildReport ::
  "(string \<Rightarrow> string \<Rightarrow> int) \<Rightarrow> config \<Rightarrow> (project \<Rightarrow> bool) \<Rightarrow> project list \<Rightarrow> report" where
  "buildReport localeCompare cfg isClientProject results =
     (let activeResults = filter hasActivity results;
          inactiveResults = filter (\<lambda>p. \<not> hasActivity p) results;
          totalCommits = sum_list (map (\<lambda>p. length (project.commits p)) activeResults);
          totalMROpened = sum_list (map (\<lambda>p. length (mrsOpened p)) activeResults);
          totalMRMerged = sum_list (map (\<lambda>p. length (mrsMerged p)) activeResults);
          totalIssuesOpened = sum_list (map (\<lambda>p. length (project.issuesOpened p)) activeResults);
          totalIssuesClosed = sum_list (map (\<lambda>p. length (project.issuesClosed p)) activeResults);
          allCommits = concat (map project.commits activeResults);
          allMrsOpened = concat (map mrsOpened activeResults);
          allMrsMerged = concat (map mrsMerged activeResults);
          allIssuesOpened = concat (map project.issuesOpened activeResults);
          allIssuesClosed = concat (map project.issuesClosed activeResults);
          totalMonthIssuesOpened = sum_list (map (\<lambda>p. length (monthIssuesOpened p)) results);
          totalMonthIssuesClosed = sum_list (map (\<lambda>p. length (monthIssuesClosed p)) results);
          contributors = length (remdups (map (\<lambda>c. resolveAuthorName (Some c)) allCommits));
          internalActive = filter (\<lambda>p. \<not> isClientProject p) activeResults;
          clientActive = filter isClientProject activeResults;
          activeOrgLabels =
            (if internalActive \<noteq> [] then [orgLabelInternal cfg] else []) @
            (if clientActive \<noteq> [] then [orgLabelClient cfg] else []);
          organizationSummary =
            (if activeOrgLabels \<noteq> []
             then digits (length activeOrgLabels) @ '' ('' @ joinWith '' + '' activeOrgLabels @
                  '')''
             else ''0 (no active orgs)'');
          summary =
            (if activeResults \<noteq> []
             then digits totalMRMerged @ '' PR'' @ plural totalMRMerged @ '' merged | '' @
                  digits totalCommits @ '' commit'' @ plural totalCommits @ '' | '' @
                  digits totalIssuesClosed @ '' issue'' @ plural totalIssuesClosed @ '' closed''
             else ''No activity recorded in the selected window.'');
          memberSummaries =
            buildMemberSummaries localeCompare allCommits allMrsMerged allMrsOpened
              allIssuesOpened allIssuesClosed;
          teamMetrics =
            formatTeamMetrics organizationSummary totalMRMerged totalMROpened totalCommits
              totalIssuesOpened totalIssuesClosed totalMonthIssuesOpened totalMonthIssuesClosed
              (length activeResults) contributors;
          teamMembers = formatTeamMembers memberSummaries ''**Team Members Metrics**'';
          internal = formatOrgSummary localeCompare (orgLabelInternal cfg) internalActive;
          client = formatOrgSummary localeCompare (orgLabelClient cfg) clientActive;
          majorFeatures = formatMajorFeatures allMrsMerged;
          bugActivity = formatBugActivity allIssuesOpened allIssuesClosed;
          velocityHighlight =
            formatVelocityHighlights totalMRMerged totalMROpened totalCommits totalIssuesClosed
              allMrsMerged (internalActive \<noteq> [] \<and> clientActive \<noteq> []);
          commitBreakdown = formatCommitBreakdown memberSummaries totalCommits;
          repoTable =
            formatRepoTable localeCompare
              (if activeResults \<noteq> [] then activeResults else take 8 results)
              totalMRMerged totalCommits;
          inactiveSummary = formatInactiveSummary inactiveResults;
          organizational =
            compact
              [Some (glyphChart @ '' **'' @ reportTitle cfg @ '' '' @ enDash @ '' '' @
                     windowLabel cfg @ ''**''),
               Some summary, Some teamMetrics, velocityHighlight, Some bugActivity];
          projectGroup =
            compact
              [Some ''**Project Metrics**'', internal, client, majorFeatures, repoTable,
               inactiveSummary];
          team =
            compact
              [Some teamMembers, commitBreakdown,
               Some ''_Posted automatically by Aquarious Velocity Bot_'']
      in \<lparr>summaryLine = summary,
          teamMetricsBlock = teamMetrics,
          teamMembersBlock = teamMembers,
          internalBlock = internal,
          clientBlock = client,
          majorFeaturesBlock = majorFeatures,
          bugActivityBlock = bugActivity,
          velocityHighlightBlock = velocityHighlight,
          commitBreakdownBlock = commitBreakdown,
          repoTableBlock = repoTable,
          inactiveSummaryBlock = inactiveSummary,
          organizationalBlocks = organizational,
          projectBlocks = projectGroup,
          teamBlocks = team,
          messages = filter (\<lambda>blocks. blocks \<noteq> []) [organizational, projectGroup, team]\<rparr>)"

text \<open>\<open>for (const blocks of messages) await postMessageBlocks(blocks)\<close>: all payloads
  posted, in order.\<close>

fun postAll :: "string list list \<Rightarrow> string list option" where
  "postAll [] = Some []"
| "postAll (blocks # rest) =
     (case postMessageBlocks (map Some blocks) of
        None \<Rightarrow> None
      | Some posted \<Rightarrow>
          (case postAll rest of None \<Rightarrow> None | Some later \<Rightarrow> Some (posted @ later)))"

text \<open>\<open>main\<close> without the dry run: the process exits with status 1 when no repository
  was discovered, and posts the report otherwise.\<close>

definition main ::
  "(string \<Rightarrow> string \<Rightarrow> int) \<Rightarrow> config \<Rightarrow> (project \<Rightarrow> bool) \<Rightarrow> project list \<Rightarrow>
   exit + string list option" where
  "main localeCompare cfg isClientProject results =
     (if results = [] then Inl NoProjectsDiscovered
      else Inr (postAll (messages (buildReport localeCompare cfg isClientProject results))))"

section \<open>Sample data\<close>

text \<open>An object without any of the fields, from which the examples below are built.\<close>

definition emptyItem :: item where
  "emptyItem =
     \<lparr>item.author = None, author_name = None, author_email = None, title = None, iid = None,
      item_id = None, web_url = None, item.projectName = None, created_at = None,
      updated_at = None, merged_at = None, closed_at = None\<rparr>"

text \<open>A commit by a named author, and the commits of the scenario of the specification:
  three by Alice and two by Bob.\<close>

definition commitBy :: "string \<Rightarrow> item" where
  "commitBy n = emptyItem\<lparr>author_name := Some n\<rparr>"

definition sampleCommits :: "item list" where
  "sampleCommits =
     [commitBy ''Alice'', commitBy ''Bob'', commitBy ''Alice'', commitBy ''Bob'',
      commitBy ''Alice'']"

text \<open>Forty commits, twenty-three of them by Ann: her share of 57.5 percent is halfway
  between two integers.\<close>

definition tieCommits :: "item list" where
  "tieCommits = replicate 23 (commitBy ''Ann'') @ replicate 17 (commitBy ''Bob'')"

text \<open>
  A collation of the kind the runtime has, for names in ASCII letters: the names are
  compared letter by letter without regard to case, and of two names that differ in case
  only the one with the lower-case letter goes first. It puts \<open>alice\<close> before \<open>Bob\<close>, as
  \<open>"alice".localeCompare("Bob")\<close> does, where the order of the code units puts \<open>Bob\<close>
  first.
\<close>

definition lowerCase :: "char \<Rightarrow> char" where
  "lowerCase c =
     (case map_of (zip ''ABCDEFGHIJKLMNOPQRSTUVWXYZ'' ''abcdefghijklmnopqrstuvwxyz'') c of
        None \<Rightarrow> c
      | Some l \<Rightarrow> l)"

definition sampleCollation :: "string \<Rightarrow> string \<Rightarrow> int" where
  "sampleCollation a b =
     (let la = map lowerCase a; lb = map lowerCase b
      in if la < lb then - 1
         else if lb < la then 1
         else if b < a then - 1
         else if a < b then 1
         else 0)"

text \<open>Two merged requests: the first merged earlier and updated later than the second.\<close>

definition mrA :: item where
  "mrA = emptyItem\<lparr>title := Some ''Add login'', web_url := Some ''https://example.com/mr/1'',
           item.projectName := Some ''web'', created_at := Some 1000, updated_at := Some 9000,
           merged_at := Some 2000\<rparr>"

definition mrB :: item where
  "mrB = emptyItem\<lparr>title := Some ''Fix logout'', web_url := Some ''https://example.com/mr/2'',
           item.projectName := Some ''web'', created_at := Some 1500, updated_at := Some 3000,
           merged_at := Some 3000\<rparr>"

text \<open>A repository without activity in the window, a configuration with the defaults of
  the source, and a run without client repositories.\<close>

definition idleProject :: project where
  "idleProject =
     \<lparr>projectId = ''42'', project.projectName = ''website'', projectPath = ''team/website'',
      project.commits = [], mrsOpened = [], mrsMerged = [], project.issuesOpened = [],
      project.issuesClosed = [], monthIssuesOpened = [], monthIssuesClosed = []\<rparr>"

definition sampleConfig :: config where
  "sampleConfig =
     \<lparr>reportTitle = ''GitLab Engineering Team Velocity'', windowLabel = ''Last 24h'',
      orgLabelInternal = ''Internal'', orgLabelClient = ''Client''\<rparr>"

definition noClient :: "project \<Rightarrow> bool" where
  "noClient p = False"

text \<open>What \<open>formatBugActivity\<close> and \<open>formatTeamMembers\<close> return when there is nothing to
  report.\<close>

definition emptyBugActivity :: string where
  "emptyBugActivity =
     ''**'' @ glyphBug @ '' Bug Activity**'' @ [newline] @
     ''```text'' @ [newline] @
     ''Fixed           0 issues'' @ [newline] @
     ''Same-day fixes  0'' @ [newline] @
     ''Opened          0 issues'' @ [newline] @
     ''```'' @ [newline] @
     ''_No bug activity recorded in this window._''"

definition emptyTeamMembers :: string where
  "emptyTeamMembers =
     ''**Team Members Metrics**'' @ [newline] @
     ''_No member activity captured in this window._''"

section \<open>Auxiliary notions for the proofs\<close>

text \<open>A chunk that may be posted: not empty and within the limit; and the invariant of
  the chunker's loop.\<close>

definition okChunk :: "nat \<Rightarrow> string \<Rightarrow> bool" where
  "okChunk limit c \<longleftrightarrow> c \<noteq> [] \<and> length c \<le> limit"

definition okState :: "nat \<Rightarrow> string list \<times> string \<Rightarrow> bool" where
  "okState limit st \<longleftrightarrow> (\<forall>c \<in> set (fst st). okChunk limit c) \<and> length (snd st) \<le> limit"

text \<open>\<open>rejoins chunks t\<close>: the text \<open>t\<close> is the chunks in order, with a run of newlines
  (possibly empty) in front of the first chunk, between two chunks and after the last one.
  \<open>consumed t st\<close>: the loop's state \<open>st\<close> accounts for the text \<open>t\<close> read so far.\<close>

definition rejoins :: "string list \<Rightarrow> string \<Rightarrow> bool" where
  "rejoins chunks t \<longleftrightarrow>
     (\<exists>seps. length seps = Suc (length chunks) \<and> (\<forall>s \<in> set seps. set s \<subseteq> {newline})
        \<and> weave seps chunks = t)"

definition consumed :: "string \<Rightarrow> string list \<times> string \<Rightarrow> bool" where
  "consumed t st \<longleftrightarrow> (\<exists>pre. t = pre @ snd st \<and> rejoins (fst st) pre)"

text \<open>The number of commits that resolve to a name, and the invariant of the loops of
  \<open>buildMemberSummaries\<close> on the commit counters.\<close>

definition commitCount :: "item list \<Rightarrow> string \<Rightarrow> nat" where
  "commitCount commitList n = length (filter (\<lambda>c. resolveAuthorName (Some c) = n) commitList)"

definition commitsAre :: "(string \<Rightarrow> nat) \<Rightarrow> member list \<Rightarrow> bool" where
  "commitsAre cnt ms \<longleftrightarrow>
     (\<forall>m \<in> set ms. member.commits m = cnt (member.name m)) \<and>
     (\<forall>n. 0 < cnt n \<longrightarrow> n \<in> member.name ` set ms)"

section \<open>The chunker: termination, bounds and rejoining\<close>

lemma chop_zero [simp]: "chop 0 s = []" by (simp add: chop.simps)
lemma chop_Nil [simp]: "chop n [] = []" by (simp add: chop.simps)
lemma chop_step: "0 < n \<Longrightarrow> s \<noteq> [] \<Longrightarrow> chop n s = take n s # chop n (drop n s)"
  by (subst chop.simps) simp

lemma chop_nonempty: "c \<in> set (chop n s) \<Longrightarrow> c \<noteq> []"
proof (induction n s rule: chop.induct)
  case (1 n s)
  show ?case
  proof (cases "n = 0 \<or> s = []")
    case True
    with 1(2) show ?thesis by auto
  next
    case False
    with 1(2) have "c = take n s \<or> c \<in> set (chop n (drop n s))"
      by (simp add: chop_step)
    with 1(1) False show ?thesis by auto
  qed
qed

lemma chop_length_le: "c \<in> set (chop n s) \<Longrightarrow> length c \<le> n"
proof (induction n s rule: chop.induct)
  case (1 n s)
  show ?case
  proof (cases "n = 0 \<or> s = []")
    case True
    with 1(2) show ?thesis by auto
  next
    case False
    with 1(2) have "c = take n s \<or> c \<in> set (chop n (drop n s))"
      by (simp add: chop_step)
    with 1(1) False show ?thesis by auto
  qed
qed

lemma concat_chop: "0 < n \<Longrightarrow> concat (chop n s) = s"
proof (induction n s rule: chop.induct)
  case (1 n s)
  show ?case
  proof (cases "s = []")
    case True
    then show ?thesis by simp
  next
    case False
    with 1 show ?thesis by (simp add: chop_step)
  qed
qed

lemma ceil_div_step: "0 < n \<Longrightarrow> 0 < (k::nat) \<Longrightarrow> (k + n - 1) div n = Suc ((k - 1) div n)"
proof -
  assume n: "0 < n" and k: "0 < k"
  have e: "k + n - 1 = (k - 1) + n" using k by simp
  show ?thesis unfolding e using n div_add_self2[of n "k - 1"] by simp
qed

lemma length_chop: "0 < n \<Longrightarrow> length (chop n s) = (length s + n - 1) div n"
proof (induction n s rule: chop.induct)
  case (1 n s)
  show ?case
  proof (cases "s = []")
    case True
    with 1(2) show ?thesis by simp
  next
    case False
    then have len: "0 < length s" by simp
    have step: "length (chop n s) = Suc (length (chop n (drop n s)))"
      using 1(2) False by (simp add: chop_step)
    have ih: "length (chop n (drop n s)) = (length s - n + n - 1) div n"
      using 1 False by simp
    have a: "(length s + n - 1) div n = Suc ((length s - 1) div n)"
      using ceil_div_step[OF 1(2) len] .
    show ?thesis
    proof (cases "length s \<le> n")
      case True
      have "length s - 1 < n" using True len by arith
      then have "(length s - 1) div n = 0" by (rule div_less)
      moreover have "length s - n + n - 1 = n - 1" using True by simp
      ultimately show ?thesis using ih step a 1(2) by simp
    next
      case False
      then have "length s - n + n - 1 = length s - 1" by simp
      then show ?thesis using ih step a by simp
    qed
  qed
qed

lemma hardSplit_chop:
  "0 < limit \<Longrightarrow> hardSplit line limit index chunks = Some (chunks @ chop limit (drop index line))"
proof (induction "length line - index" arbitrary: index chunks rule: less_induct)
  case less
  show ?case
  proof (cases "index < length line")
    case True
    have "hardSplit line limit index chunks =
          hardSplit line limit (index + limit) (chunks @ [slice line index (index + limit)])"
      using True by (subst hardSplit.simps) simp
    also have "\<dots> = Some ((chunks @ [slice line index (index + limit)]) @ chop limit (drop (index + limit) line))"
    proof (rule less(1))
      show "length line - (index + limit) < length line - index" using less(2) True by simp
      show "0 < limit" by (rule less(2))
    qed
    also have "slice line index (index + limit) = take limit (drop index line)"
      by (simp add: slice_def)
    finally have h: "hardSplit line limit index chunks =
      Some ((chunks @ [take limit (drop index line)]) @ chop limit (drop (index + limit) line))" .
    have "drop index line \<noteq> []" using True by simp
    from chop_step[OF less(2) this]
    have "chop limit (drop index line) = take limit (drop index line) # chop limit (drop (index + limit) line)"
      by (simp add: add.commute)
    with h show ?thesis by simp
  next
    case False
    have "hardSplit line limit index chunks = Some chunks"
      using False by (subst hardSplit.simps) simp
    then show ?thesis using False by simp
  qed
qed

lemma chop_okChunk: "c \<in> set (chop limit s) \<Longrightarrow> okChunk limit c"
  using chop_nonempty[of c limit s] chop_length_le[of c limit s] by (simp add: okChunk_def)

lemma chunkStep_eq:
  "0 < limit \<Longrightarrow> chunkStep limit (chunks, current) line =
     Some (if length (if current \<noteq> [] then current @ [newline] @ line else line) \<le> limit
           then (chunks, if current \<noteq> [] then current @ [newline] @ line else line)
           else if length line \<le> limit
                then (if current \<noteq> [] then chunks @ [current] else chunks, line)
                else ((if current \<noteq> [] then chunks @ [current] else chunks) @ chop limit line, []))"
  unfolding chunkStep_def Let_def fst_conv snd_conv
  by (simp add: hardSplit_chop del: append.simps)

lemma chunkStep_ok:
  assumes "0 < limit" "okState limit st"
  shows "\<exists>st1. chunkStep limit st line = Some st1 \<and> okState limit st1"
proof -
  obtain chunks current where st: "st = (chunks, current)" by (cases st)
  have c: "\<forall>c \<in> set chunks. okChunk limit c" and cur: "length current \<le> limit"
    using assms(2) st by (simp_all add: okState_def)
  define chunks1 where "chunks1 = (if current \<noteq> [] then chunks @ [current] else chunks)"
  have c1: "\<forall>c \<in> set chunks1. okChunk limit c"
    using c cur by (simp add: chunks1_def okChunk_def)
  have c2: "\<forall>c \<in> set (chunks1 @ chop limit line). okChunk limit c"
    using c1 chop_okChunk by auto
  show ?thesis
    unfolding st chunkStep_eq[OF assms(1)] chunks1_def[symmetric]
    using c c1 c2 by (simp add: okState_def)
qed

lemma chunkLoop_ok:
  "0 < limit \<Longrightarrow> okState limit st \<Longrightarrow>
   \<exists>st1. chunkLoop limit lines st = Some st1 \<and> okState limit st1"
proof (induction lines arbitrary: st)
  case Nil
  then show ?case by simp
next
  case (Cons line lines)
  from chunkStep_ok[OF Cons.prems, of line] obtain st1
    where s: "chunkStep limit st line = Some st1" and ok: "okState limit st1" by blast
  from Cons.IH[OF Cons.prems(1) ok] s show ?case by simp
qed

lemma chunkMessage_ok:
  assumes "0 < limit"
  shows "\<exists>chunks. chunkMessage text limit = Some chunks \<and> (\<forall>c \<in> set chunks. okChunk limit c)"
proof (cases "text = []")
  case True
  then show ?thesis by (simp add: chunkMessage_def)
next
  case False
  have "okState limit ([], [])" by (simp add: okState_def)
  from chunkLoop_ok[OF assms this, of "splitNewline text"] obtain st1
    where l: "chunkLoop limit (splitNewline text) ([], []) = Some st1" and ok: "okState limit st1"
    by blast
  show ?thesis using False l ok
    by (simp add: chunkMessage_def okState_def okChunk_def)
qed

lemma splitNewline_no_newline: "newline \<notin> set s \<Longrightarrow> splitNewline s = [s]"
  by (induction s) auto

lemma chunkMessage_single_line:
  assumes "0 < limit" "newline \<notin> set text" "limit < length text"
  shows "chunkMessage text limit = Some (chop limit text)"
proof -
  have "text \<noteq> []" using assms by auto
  then show ?thesis using assms
    by (simp add: chunkMessage_def splitNewline_no_newline chunkStep_eq)
qed


lemma weave_snoc_sep:
  "length seps = Suc (length cs) \<Longrightarrow>
   weave (butlast seps @ [last seps @ x]) cs = weave seps cs @ x"
proof (induction cs arbitrary: seps)
  case Nil
  then obtain s where "seps = [s]" by (cases seps) auto
  then show ?case by simp
next
  case (Cons c cs)
  then obtain s seps' where s: "seps = s # seps'" and l: "length seps' = Suc (length cs)"
    by (cases seps) auto
  then have ne: "seps' \<noteq> []" by auto
  from Cons.IH[OF l] show ?case using s ne by simp
qed

lemma weave_snoc_chunk:
  "length seps = Suc (length cs) \<Longrightarrow> weave (seps @ [[]]) (cs @ [c]) = weave seps cs @ c"
proof (induction cs arbitrary: seps)
  case Nil
  then obtain s where "seps = [s]" by (cases seps) auto
  then show ?case by simp
next
  case (Cons c' cs)
  then obtain s seps' where s: "seps = s # seps'" and l: "length seps' = Suc (length cs)"
    by (cases seps) auto
  from Cons.IH[OF l] show ?case using s by simp
qed

lemma rejoins_Nil: "rejoins [] []"
  unfolding rejoins_def by (rule exI[of _ "[[]]"]) simp

lemma rejoins_newline: assumes "rejoins cs t" shows "rejoins cs (t @ [newline])"
proof -
  from assms obtain seps where l: "length seps = Suc (length cs)"
    and n: "\<forall>s \<in> set seps. set s \<subseteq> {newline}" and w: "weave seps cs = t"
    unfolding rejoins_def by blast
  have ne: "seps \<noteq> []" using l by auto
  let ?seps = "butlast seps @ [last seps @ [newline]]"
  have "length ?seps = Suc (length cs)" using l ne by simp
  moreover have "\<forall>s \<in> set ?seps. set s \<subseteq> {newline}"
    using n ne by (auto dest: in_set_butlastD)
  moreover have "weave ?seps cs = t @ [newline]" using weave_snoc_sep[OF l] w by simp
  ultimately show ?thesis unfolding rejoins_def by blast
qed

lemma rejoins_chunk: assumes "rejoins cs t" shows "rejoins (cs @ [c]) (t @ c)"
proof -
  from assms obtain seps where l: "length seps = Suc (length cs)"
    and n: "\<forall>s \<in> set seps. set s \<subseteq> {newline}" and w: "weave seps cs = t"
    unfolding rejoins_def by blast
  let ?seps = "seps @ [[]]"
  have "length ?seps = Suc (length (cs @ [c]))" using l by simp
  moreover have "\<forall>s \<in> set ?seps. set s \<subseteq> {newline}" using n by auto
  moreover have "weave ?seps (cs @ [c]) = t @ c" using weave_snoc_chunk[OF l] w by simp
  ultimately show ?thesis unfolding rejoins_def by blast
qed

lemma rejoins_chunks: "rejoins cs t \<Longrightarrow> rejoins (cs @ ds) (t @ concat ds)"
proof (induction ds arbitrary: cs t)
  case Nil
  then show ?case by simp
next
  case (Cons d ds)
  from Cons.IH[OF rejoins_chunk[OF Cons.prems, of d]] show ?case by simp
qed

lemma consumed_flush:
  assumes "consumed t (chunks, current)"
  shows "rejoins (if current \<noteq> [] then chunks @ [current] else chunks) t"
proof -
  from assms obtain pre where t: "t = pre @ current" and r: "rejoins chunks pre"
    unfolding consumed_def by auto
  show ?thesis using t r rejoins_chunk[OF r, of current] by simp
qed

lemma chunkStep_first:
  assumes "0 < limit" "chunkStep limit ([], []) line = Some st1"
  shows "consumed line st1"
proof -
  have r: "rejoins ([] @ chop limit line) ([] @ concat (chop limit line))"
    by (rule rejoins_chunks[OF rejoins_Nil])
  show ?thesis
    using assms(2) r rejoins_Nil unfolding chunkStep_eq[OF assms(1)] consumed_def
    by (auto simp: concat_chop[OF assms(1)] split: if_splits)
qed

lemma chunkStep_next:
  assumes "0 < limit" "chunkStep limit st line = Some st1" "consumed t st"
  shows "consumed (t @ newline # line) st1"
proof -
  obtain chunks current where st: "st = (chunks, current)" by (cases st)
  from assms(3) obtain pre where t: "t = pre @ current" and r: "rejoins chunks pre"
    unfolding consumed_def st by auto
  define chunks1 where "chunks1 = (if current \<noteq> [] then chunks @ [current] else chunks)"
  have r1: "rejoins chunks1 (t @ [newline])"
    unfolding chunks1_def using consumed_flush[OF assms(3)[unfolded st]] by (rule rejoins_newline)
  have r2: "rejoins (chunks1 @ chop limit line) ((t @ [newline]) @ concat (chop limit line))"
    by (rule rejoins_chunks[OF r1])
  have s: "chunkStep limit st line =
     Some (if length (if current \<noteq> [] then current @ [newline] @ line else line) \<le> limit
           then (chunks, if current \<noteq> [] then current @ [newline] @ line else line)
           else if length line \<le> limit then (chunks1, line)
                else (chunks1 @ chop limit line, []))"
    unfolding st chunkStep_eq[OF assms(1)] chunks1_def ..
  show ?thesis
  proof (cases "length (if current \<noteq> [] then current @ [newline] @ line else line) \<le> limit")
    case True
    then have st1: "st1 = (chunks, if current \<noteq> [] then current @ [newline] @ line else line)"
      using assms(2) s by simp
    show ?thesis
    proof (cases "current = []")
      case True
      have "rejoins chunks (pre @ [newline])" by (rule rejoins_newline[OF r])
      then show ?thesis unfolding consumed_def st1 using True t by auto
    next
      case False
      then show ?thesis unfolding consumed_def st1 using t r by auto
    qed
  next
    case False
    show ?thesis
    proof (cases "length line \<le> limit")
      case True
      then have "st1 = (chunks1, line)" using assms(2) s False by simp
      then show ?thesis unfolding consumed_def using r1 by auto
    next
      case F2: False
      then have "st1 = (chunks1 @ chop limit line, [])" using assms(2) s False by simp
      then show ?thesis unfolding consumed_def using r2 concat_chop[OF assms(1), of line] by auto
    qed
  qed
qed

lemma chunkLoop_consumed:
  "0 < limit \<Longrightarrow> chunkLoop limit lines st = Some st1 \<Longrightarrow> consumed t st \<Longrightarrow>
   consumed (t @ concat (map ((#) newline) lines)) st1"
proof (induction lines arbitrary: st t)
  case Nil
  then show ?case by simp
next
  case (Cons line lines)
  from Cons.prems(2) obtain st2 where s: "chunkStep limit st line = Some st2"
    and l: "chunkLoop limit lines st2 = Some st1"
    by (auto split: option.splits)
  from chunkStep_next[OF Cons.prems(1) s Cons.prems(3)]
  have "consumed (t @ newline # line) st2" .
  from Cons.IH[OF Cons.prems(1) l this] show ?case by simp
qed

lemma splitNewline_join:
  "splitNewline t = l # ls \<Longrightarrow> t = l @ concat (map ((#) newline) ls)"
proof (induction t arbitrary: l ls)
  case Nil
  then show ?case by simp
next
  case (Cons c t)
  show ?case
  proof (cases "c = newline")
    case True
    with Cons.prems have l: "l = []" and ls: "splitNewline t = ls" by auto
    obtain l' ls' where e: "splitNewline t = l' # ls'" by (cases "splitNewline t") (cases t, auto split: if_splits list.splits)
    from Cons.IH[OF e] show ?thesis using True l ls e by simp
  next
    case False
    obtain l' ls' where e: "splitNewline t = l' # ls'" by (cases "splitNewline t") (cases t, auto split: if_splits list.splits)
    with Cons.prems False have "l = c # l'" "ls = ls'" by auto
    with Cons.IH[OF e] show ?thesis by simp
  qed
qed

lemma chunkMessage_rejoins:
  assumes "0 < limit" "chunkMessage text limit = Some chunks"
  shows "rejoins chunks text"
proof (cases "text = []")
  case True
  with assms(2) show ?thesis by (simp add: chunkMessage_def rejoins_Nil)
next
  case False
  obtain l ls where e: "splitNewline text = l # ls"
    by (cases "splitNewline text") (cases "text", auto split: if_splits list.splits)
  from assms(2) False e obtain st2 st1 where
    s: "chunkStep limit ([], []) l = Some st2" and lp: "chunkLoop limit ls st2 = Some st1"
    and c: "chunks = (if snd st1 \<noteq> [] then fst st1 @ [snd st1] else fst st1)"
    by (auto simp: chunkMessage_def split: option.splits)
  from chunkLoop_consumed[OF assms(1) lp chunkStep_first[OF assms(1) s]]
  have "consumed text st1" using splitNewline_join[OF e] by simp
  then have "consumed text (fst st1, snd st1)" by simp
  from consumed_flush[OF this] show ?thesis using c by simp
qed


lemma splitNewline_append:
  "newline \<notin> set a \<Longrightarrow> splitNewline (a @ newline # rest) = a # splitNewline rest"
  by (induction a) auto

lemma trim_Nil [simp]: "trim [] = []"
  by (simp add: trim_def)

lemma postMessageBlocks_returns:
  "\<exists>posted. postMessageBlocks blocks = Some posted \<and> [] \<notin> set posted"
proof -
  have "0 < defaultLimit" by (simp add: defaultLimit_def)
  from chunkMessage_ok[OF this]
  obtain chunks where
    "chunkMessage (trim (joinWith [newline, newline] (compact blocks))) defaultLimit = Some chunks"
    by blast
  then show ?thesis by (auto simp: postMessageBlocks_def Let_def)
qed

lemma weave_hd: "length seps = Suc (length cs) \<Longrightarrow> \<exists>u. weave seps cs = hd seps @ u"
  by (cases seps; cases cs) auto

lemma weave_last: "length seps = Suc (length cs) \<Longrightarrow> \<exists>v. weave seps cs = v @ last seps"
proof (induction cs arbitrary: seps)
  case Nil
  then obtain s where "seps = [s]" by (cases seps) auto
  then show ?case by simp
next
  case (Cons c cs)
  then obtain s seps' where s: "seps = s # seps'" and l: "length seps' = Suc (length cs)"
    by (cases seps) auto
  from Cons.IH[OF l] obtain v where "weave seps' cs = v @ last seps'" by blast
  moreover have "seps' \<noteq> []" using l by auto
  ultimately have "weave seps (c # cs) = (s @ c @ v) @ last seps" using s by simp
  then show ?case by blast
qed

lemma weave_ends:
  assumes l: "length seps = Suc (length cs)"
    and n: "\<forall>s \<in> set seps. set s \<subseteq> {newline}"
    and w: "weave seps cs = t"
    and t: "t \<noteq> []" "hd t \<noteq> newline" "last t \<noteq> newline"
  shows "hd seps = [] \<and> last seps = []"
proof -
  have ne: "seps \<noteq> []" using l by auto
  have "hd seps = []"
  proof (rule ccontr)
    assume a: "hd seps \<noteq> []"
    from weave_hd[OF l] w obtain u where "t = hd seps @ u" by auto
    then have "hd t = hd (hd seps)" using a by simp
    moreover have "hd (hd seps) \<in> set (hd seps)" using a by simp
    moreover have "set (hd seps) \<subseteq> {newline}" using n ne by simp
    ultimately show False using t(2) by auto
  qed
  moreover have "last seps = []"
  proof (rule ccontr)
    assume a: "last seps \<noteq> []"
    from weave_last[OF l] w obtain v where "t = v @ last seps" by auto
    then have "last t = last (last seps)" using a by simp
    moreover have "last (last seps) \<in> set (last seps)" using a by simp
    moreover have "set (last seps) \<subseteq> {newline}" using n ne by simp
    ultimately show False using t(3) by auto
  qed
  ultimately show ?thesis by simp
qed


section \<open>Double precision: the rounding error\<close>

lemma bitlen_upper: "n < 2 ^ bitlen n"
proof (induction n rule: bitlen.induct)
  case (1 n)
  show ?case
  proof (cases "n = 0")
    case True
    then show ?thesis by (simp add: bitlen.simps)
  next
    case False
    with 1 have ih: "n div 2 < 2 ^ bitlen (n div 2)" by simp
    have b: "bitlen n = Suc (bitlen (n div 2))" using False by (subst bitlen.simps) simp
    have "n < 2 * (n div 2) + 2" by arith
    also have "\<dots> \<le> 2 * 2 ^ bitlen (n div 2)" using ih by simp
    finally show ?thesis by (simp add: b)
  qed
qed

lemma bitlen_lower: "0 < n \<Longrightarrow> 2 ^ bitlen n \<le> 2 * n"
proof (induction n rule: bitlen.induct)
  case (1 n)
  then have n: "n \<noteq> 0" by simp
  have b: "bitlen n = Suc (bitlen (n div 2))" using n by (subst bitlen.simps) simp
  show ?case
  proof (cases "n div 2 = 0")
    case True
    then have "bitlen (n div 2) = 0" by (simp add: bitlen.simps)
    then show ?thesis using b n by simp
  next
    case False
    with 1 n have "2 ^ bitlen (n div 2) \<le> 2 * (n div 2)" by simp
    also have "\<dots> \<le> n" by simp
    finally show ?thesis by (simp add: b)
  qed
qed

lemma ilog2_bounds:
  assumes "0 < x"
  shows "2 powi (ilog2 x) \<le> x" and "x < 2 powi (ilog2 x + 1)"
proof -
  obtain p q where pq: "quotient_of x = (p, q)" by (cases "quotient_of x")
  have q: "0 < q" using quotient_of_denom_pos[OF pq] .
  have x: "x = of_int p / of_int q" using quotient_of_div[OF pq] .
  have p: "0 < p" using assms q x by (simp add: zero_less_divide_iff)
  define bp where "bp = bitlen (nat p)"
  define bq where "bq = bitlen (nat q)"
  define d where "d = int bp - int bq"
  have il: "ilog2 x = (if 2 powi d \<le> x then d else d - 1)"
    by (simp add: ilog2_def pq Let_def d_def bp_def bq_def)
  have p1: "nat p < 2 ^ bp" unfolding bp_def by (rule bitlen_upper)
  have p2: "2 ^ bp \<le> 2 * nat p" unfolding bp_def using p by (intro bitlen_lower) simp
  have q1: "nat q < 2 ^ bq" unfolding bq_def by (rule bitlen_upper)
  have q2: "2 ^ bq \<le> 2 * nat q" unfolding bq_def using q by (intro bitlen_lower) simp
  have p1': "(of_int p :: rat) < 2 ^ bp"
  proof -
    have "int (nat p) < int (2 ^ bp)" using p1 by (simp only: of_nat_less_iff)
    then have "p < 2 ^ bp" using p by simp
    then have "(of_int p :: rat) < of_int (2 ^ bp)" by (simp only: of_int_less_iff)
    then show ?thesis by simp
  qed
  have p2': "(2 ^ bp :: rat) \<le> 2 * of_int p"
  proof -
    have "int (2 ^ bp) \<le> int (2 * nat p)" using p2 by (simp only: of_nat_le_iff)
    then have "2 ^ bp \<le> 2 * p" using p by simp
    then have "(of_int (2 ^ bp) :: rat) \<le> of_int (2 * p)" by (simp only: of_int_le_iff)
    then show ?thesis by simp
  qed
  have q1': "(of_int q :: rat) < 2 ^ bq"
  proof -
    have "int (nat q) < int (2 ^ bq)" using q1 by (simp only: of_nat_less_iff)
    then have "q < 2 ^ bq" using q by simp
    then have "(of_int q :: rat) < of_int (2 ^ bq)" by (simp only: of_int_less_iff)
    then show ?thesis by simp
  qed
  have q2': "(2 ^ bq :: rat) \<le> 2 * of_int q"
  proof -
    have "int (2 ^ bq) \<le> int (2 * nat q)" using q2 by (simp only: of_nat_le_iff)
    then have "2 ^ bq \<le> 2 * q" using q by simp
    then have "(of_int (2 ^ bq) :: rat) \<le> of_int (2 * q)" by (simp only: of_int_le_iff)
    then show ?thesis by simp
  qed
  have pd: "(2::rat) powi d = 2 ^ bp / 2 ^ bq"
    unfolding d_def by (simp add: power_int_diff)
  have qpos: "(0::rat) < of_int q" using q by simp
  have ppos: "(0::rat) < of_int p" using p by simp
  have lower: "(2::rat) powi (d - 1) \<le> x"
  proof -
    have "(2::rat) powi (d - 1) = 2 ^ bp / (2 * 2 ^ bq)"
      using pd by (simp add: power_int_diff)
    also have "\<dots> \<le> of_int p / of_int q"
    proof -
      have "(2 ^ bp :: rat) * of_int q \<le> (2 * of_int p) * 2 ^ bq"
        using p2' q1' ppos qpos by (intro mult_mono) simp_all
      then show ?thesis using qpos by (simp add: field_simps)
    qed
    finally show ?thesis using x by simp
  qed
  have upper: "x < (2::rat) powi (d + 1)"
  proof -
    have "of_int p * (2 ^ bq :: rat) < 2 ^ bp * (2 * of_int q)"
      using p1' q2' ppos qpos by (intro mult_less_le_imp_less) simp_all
    then have "of_int p / of_int q < (2 * 2 ^ bp :: rat) / 2 ^ bq"
      using qpos by (simp add: field_simps)
    also have "\<dots> = 2 powi (d + 1)" using pd by (simp add: power_int_add)
    finally show ?thesis using x by simp
  qed
  show "2 powi (ilog2 x) \<le> x" using il lower by (simp split: if_splits)
  show "x < 2 powi (ilog2 x + 1)" using il upper by (auto split: if_splits)
qed

lemma roundHalfEven_error: "\<bar>of_int (roundHalfEven x) - x\<bar> \<le> 1 / 2"
proof -
  have "of_int \<lfloor>x\<rfloor> \<le> x" "x < of_int \<lfloor>x\<rfloor> + 1" by linarith+
  then show ?thesis unfolding roundHalfEven_def Let_def by (auto simp: abs_le_iff)
qed

lemma roundHalfEven_of_int [simp]: "roundHalfEven (of_int n) = n"
  by (simp add: roundHalfEven_def)

lemma toDouble_error:
  assumes "0 < x"
  shows "\<bar>toDouble x - x\<bar> \<le> x / 2 ^ 53"
proof -
  define e where "e = ilog2 x - 52"
  define s where "s = x / 2 powi e"
  define m where "m = roundHalfEven s"
  have pe: "(0::rat) < 2 powi e" by (simp add: zero_less_power_int)
  have td: "toDouble x = of_int m * 2 powi e"
    using assms by (simp add: toDouble_def Let_def e_def s_def m_def)
  have xs: "x = s * 2 powi e" using pe by (simp add: s_def)
  have "toDouble x - x = (of_int m - s) * 2 powi e" by (simp add: td algebra_simps) (subst xs, simp)
  then have "\<bar>toDouble x - x\<bar> = \<bar>of_int m - s\<bar> * 2 powi e"
    using pe by (simp add: abs_mult)
  also have "\<dots> \<le> (1 / 2) * 2 powi e"
    using roundHalfEven_error[of s] pe unfolding m_def by (intro mult_right_mono) simp_all
  also have "\<dots> = 2 powi (ilog2 x) / 2 ^ 53"
    unfolding e_def by (simp add: power_int_diff)
  also have "\<dots> \<le> x / 2 ^ 53"
    using ilog2_bounds(1)[OF assms] by (simp add: divide_right_mono)
  finally show ?thesis .
qed

lemma toDouble_zero [simp]: "toDouble 0 = 0" by (simp add: toDouble_def)

lemma mathRound_error: "\<bar>of_int (mathRound x) - x\<bar> \<le> 1 / 2"
proof -
  have "of_int \<lfloor>x + 1 / 2\<rfloor> \<le> x + 1 / 2" "x + 1 / 2 < of_int \<lfloor>x + 1 / 2\<rfloor> + 1" by linarith+
  then show ?thesis unfolding mathRound_def by linarith
qed

lemma roundedPercent_zero [simp]: "roundedPercent 0 b = 0"
  by (simp add: roundedPercent_def mulDouble_def divCounts_def mathRound_def floor_eq_iff)

lemma roundedPercent_nearest:
  assumes b: "0 < b" and a: "a < 2 ^ 32"
  shows "\<bar>of_int (roundedPercent a b) - 100 * of_nat a / (of_nat b :: rat)\<bar> \<le> 1 / 2"
proof (cases "a = 0")
  case True
  then show ?thesis by simp
next
  case False
  define v :: rat where "v = of_nat a / of_nat b"
  define v1 where "v1 = toDouble v"
  define w where "w = v1 * 100"
  define v2 where "v2 = toDouble w"
  define r where "r = roundedPercent a b"
  have bpos: "(0::rat) < of_nat b" using b by simp
  have vpos: "0 < v" using False b by (simp add: v_def)
  have e1: "\<bar>v1 - v\<bar> \<le> v / 2 ^ 53" unfolding v1_def by (rule toDouble_error[OF vpos])
  have "v / 2 ^ 53 < v" using vpos by (simp add: field_simps)
  with e1 have v1pos: "0 < v1" by linarith
  have v1le: "v1 \<le> 2 * v"
  proof -
    have "v / 2 ^ 53 \<le> v" using vpos by (simp add: field_simps)
    with e1 show ?thesis by linarith
  qed
  have wpos: "0 < w" using v1pos by (simp add: w_def)
  have e2: "\<bar>v2 - w\<bar> \<le> w / 2 ^ 53" unfolding v2_def by (rule toDouble_error[OF wpos])
  have rdef: "r = mathRound v2" by (simp add: r_def roundedPercent_def mulDouble_def divCounts_def v2_def w_def v1_def v_def)
  have e3: "\<bar>of_int r - v2\<bar> \<le> 1 / 2" unfolding rdef by (rule mathRound_error)
  have wv: "\<bar>w - 100 * v\<bar> \<le> 100 * v / 2 ^ 53"
  proof -
    have "\<bar>w - 100 * v\<bar> = 100 * \<bar>v1 - v\<bar>" by (simp add: w_def abs_if)
    then show ?thesis using e1 by simp
  qed
  have wle: "w \<le> 200 * v" using v1le by (simp add: w_def)
  have "\<bar>of_int r - 100 * v\<bar> \<le> \<bar>of_int r - v2\<bar> + \<bar>v2 - w\<bar> + \<bar>w - 100 * v\<bar>" by simp
  also have "\<dots> \<le> 1 / 2 + w / 2 ^ 53 + 100 * v / 2 ^ 53" using e2 e3 wv by simp
  also have "\<dots> \<le> 1 / 2 + 200 * v / 2 ^ 53 + 100 * v / 2 ^ 53"
    using wle by (simp add: divide_right_mono)
  also have "\<dots> = 1 / 2 + 300 * v / 2 ^ 53" by simp
  finally have D: "\<bar>of_int r - 100 * v\<bar> \<le> 1 / 2 + 300 * v / 2 ^ 53" .
  define N where "N = \<bar>2 * int b * r - 200 * int a\<bar>"
  have N: "(of_int N :: rat) = 2 * of_nat b * \<bar>of_int r - 100 * v\<bar>"
  proof -
    have "2 * of_nat b * (of_int r - 100 * v) = (of_int (2 * int b * r - 200 * int a) :: rat)"
      using bpos by (simp add: v_def field_simps)
    then have "\<bar>(of_int (2 * int b * r - 200 * int a) :: rat)\<bar> = \<bar>2 * of_nat b * (of_int r - 100 * v)\<bar>"
      by simp
    also have "\<dots> = 2 * of_nat b * \<bar>of_int r - 100 * v\<bar>"
      using bpos by (simp add: abs_mult)
    finally show ?thesis unfolding N_def by simp
  qed
  have "(of_int N :: rat) \<le> 2 * of_nat b * (1 / 2 + 300 * v / 2 ^ 53)"
    unfolding N using D bpos by (intro mult_left_mono) simp_all
  also have "\<dots> = of_nat b + 600 * of_nat a / 2 ^ 53"
    using bpos by (simp add: v_def field_simps)
  also have "\<dots> < of_nat b + 1"
  proof -
    have "600 * a < 2 ^ 53" using a by simp
    then have "(of_nat (600 * a) :: rat) < of_nat (2 ^ 53)" by (simp only: of_nat_less_iff)
    then have "600 * (of_nat a :: rat) < 2 ^ 53" by simp
    then have "600 * (of_nat a :: rat) / 2 ^ 53 < 1" by simp
    then show ?thesis by simp
  qed
  finally have "(of_int N :: rat) < of_int (int b + 1)" by simp
  then have "N < int b + 1" by (simp only: of_int_less_iff)
  then have "N \<le> int b" by simp
  then have "(of_int N :: rat) \<le> of_int (int b)" by (simp only: of_int_le_iff)
  then have "2 * of_nat b * \<bar>of_int r - 100 * v\<bar> \<le> (of_nat b :: rat)" unfolding N by simp
  then have "\<bar>of_int r - 100 * v\<bar> \<le> 1 / 2" using bpos by (simp add: field_simps)
  then show ?thesis by (simp add: r_def v_def)
qed

lemma ilog2_unique:
  assumes "0 < x" "2 powi e \<le> x" "x < 2 powi (e + 1)"
  shows "ilog2 x = e"
proof (rule ccontr)
  assume ne: "ilog2 x \<noteq> e"
  note b = ilog2_bounds[OF assms(1)]
  show False
  proof (cases "ilog2 x < e")
    case True
    then have "(2::rat) powi (ilog2 x + 1) \<le> 2 powi e"
      by (intro power_int_increasing) simp_all
    with b(2) assms(2) show False by simp
  next
    case False
    with ne have "(2::rat) powi (e + 1) \<le> 2 powi (ilog2 x)"
      by (intro power_int_increasing) simp_all
    with b(1) assms(3) show False by simp
  qed
qed

lemma roundHalfEven_unique:
  assumes "\<bar>of_int m - x\<bar> < 1 / 2"
  shows "roundHalfEven x = m"
proof -
  have f: "of_int \<lfloor>x\<rfloor> \<le> x" "x < of_int \<lfloor>x\<rfloor> + 1" by linarith+
  have a: "x - 1 / 2 < of_int m" "of_int m < x + 1 / 2" using assms by linarith+
  show ?thesis
  proof (cases "x - of_int \<lfloor>x\<rfloor> < 1 / 2")
    case True
    have "of_int m < (of_int (\<lfloor>x\<rfloor> + 1) :: rat)" using a True by simp
    then have "m < \<lfloor>x\<rfloor> + 1" by (simp only: of_int_less_iff)
    moreover have "(of_int (\<lfloor>x\<rfloor> - 1) :: rat) < of_int m" using a f by simp linarith
    then have "\<lfloor>x\<rfloor> - 1 < m" by (simp only: of_int_less_iff)
    ultimately have "m = \<lfloor>x\<rfloor>" by simp
    then show ?thesis using True by (simp add: roundHalfEven_def)
  next
    case False
    have "(of_int \<lfloor>x\<rfloor> :: rat) < of_int m" using a False by simp
    then have "\<lfloor>x\<rfloor> < m" by (simp only: of_int_less_iff)
    moreover have "of_int m < (of_int (\<lfloor>x\<rfloor> + 2) :: rat)" using a f by simp
    then have "m < \<lfloor>x\<rfloor> + 2" by (simp only: of_int_less_iff)
    ultimately have m: "m = \<lfloor>x\<rfloor> + 1" by simp
    have "x - of_int \<lfloor>x\<rfloor> \<noteq> 1 / 2"
    proof
      assume "x - of_int \<lfloor>x\<rfloor> = 1 / 2"
      then have "of_int m - x = 1 / 2" using m by simp
      with assms show False by simp
    qed
    with False have "1 / 2 < x - of_int \<lfloor>x\<rfloor>" by simp
    then show ?thesis using False m by (simp add: roundHalfEven_def)
  qed
qed

text \<open>Evaluating \<open>toDouble\<close>: the exponent and the significand are checked, not searched.\<close>

lemma toDouble_eqI:
  assumes "0 < x" "2 powi e \<le> x" "x < 2 powi (e + 1)"
    and "\<bar>of_int m - x / 2 powi (e - 52)\<bar> < 1 / 2"
  shows "toDouble x = of_int m * 2 powi (e - 52)"
proof -
  have "ilog2 \<bar>x\<bar> = e" using assms(1-3) by (simp add: ilog2_unique)
  moreover have "roundHalfEven (\<bar>x\<bar> / 2 powi (e - 52)) = m"
    using assms(1,4) by (simp add: roundHalfEven_unique)
  ultimately show ?thesis using assms(1) by (simp add: toDouble_def)
qed

lemma mathRound_of_int [simp]: "mathRound (of_int n) = n"
  by (simp add: mathRound_def floor_eq_iff)

lemma roundedPercentI:
  assumes "toDouble (of_nat a / of_nat b) = v"
    and "toDouble (v * 100) = of_int r"
  shows "roundedPercent a b = r"
  unfolding roundedPercent_def mulDouble_def divCounts_def assms by (rule mathRound_of_int)

lemma rp60: "roundedPercent 3 5 = 60"
proof (rule roundedPercentI)
  have "toDouble (3 / 5) = of_int 5404319552844595 * 2 powi (- 1 - 52)"
    by (rule toDouble_eqI) simp_all
  then show "toDouble (of_nat 3 / of_nat 5) = of_int 5404319552844595 * 2 powi (- 1 - 52)"
    by simp
  have "toDouble (of_int 5404319552844595 * 2 powi (- 1 - 52) * 100) =
        of_int 8444249301319680 * 2 powi (5 - 52)"
    by (rule toDouble_eqI) simp_all
  also have "\<dots> = of_int 60" by simp
  finally show "toDouble (of_int 5404319552844595 * 2 powi (- 1 - 52) * 100) = of_int 60" .
qed

lemma rp40: "roundedPercent 2 5 = 40"
proof (rule roundedPercentI)
  have "toDouble (2 / 5) = of_int 7205759403792794 * 2 powi (- 2 - 52)"
    by (rule toDouble_eqI) simp_all
  then show "toDouble (of_nat 2 / of_nat 5) = of_int 7205759403792794 * 2 powi (- 2 - 52)"
    by simp
  have "toDouble (of_int 7205759403792794 * 2 powi (- 2 - 52) * 100) =
        of_int 5629499534213120 * 2 powi (5 - 52)"
    by (rule toDouble_eqI) simp_all
  also have "\<dots> = of_int 40" by simp
  finally show "toDouble (of_int 7205759403792794 * 2 powi (- 2 - 52) * 100) = of_int 40" .
qed


section \<open>Sorting and the ranking of contributors\<close>

subsection \<open>Insertion sort\<close>

lemma set_insertBy [simp]: "set (insertBy cmp x xs) = insert x (set xs)"
  by (induction xs) auto

lemma length_insertBy [simp]: "length (insertBy cmp x xs) = Suc (length xs)"
  by (induction xs) auto

lemma sum_list_insertBy:
  "sum_list (map f (insertBy cmp x xs)) = f x + sum_list (map (f :: 'a \<Rightarrow> 'c::comm_monoid_add) xs)"
  by (induction xs) (auto simp: add.left_commute)

lemma distinct_map_insertBy:
  "distinct (map f (insertBy cmp x xs)) \<longleftrightarrow> f x \<notin> f ` set xs \<and> distinct (map f xs)"
  by (induction xs) auto

lemma set_sortBy [simp]: "set (sortBy cmp xs) = set xs"
  by (induction xs) (auto simp: sortBy_def)

lemma length_sortBy [simp]: "length (sortBy cmp xs) = length xs"
  by (induction xs) (auto simp: sortBy_def)

lemma sum_list_sortBy:
  "sum_list (map f (sortBy cmp xs)) = sum_list (map (f :: 'a \<Rightarrow> 'c::comm_monoid_add) xs)"
  by (induction xs) (auto simp: sortBy_def sum_list_insertBy)

lemma distinct_map_sortBy: "distinct (map f (sortBy cmp xs)) \<longleftrightarrow> distinct (map f xs)"
proof (induction xs)
  case Nil
  then show ?case by (simp add: sortBy_def)
next
  case (Cons x xs)
  have "sortBy cmp (x # xs) = insertBy cmp x (sortBy cmp xs)" by (simp add: sortBy_def)
  then show ?case using Cons by (simp add: distinct_map_insertBy)
qed

lemma sorted_insertBy:
  assumes tot: "\<And>a b. cmp a b \<le> 0 \<or> cmp b a \<le> 0"
    and trans: "\<And>a b c. cmp a b \<le> 0 \<Longrightarrow> cmp b c \<le> 0 \<Longrightarrow> cmp a c \<le> 0"
  shows "sorted_wrt (\<lambda>a b. cmp a b \<le> 0) xs \<Longrightarrow>
         sorted_wrt (\<lambda>a b. cmp a b \<le> 0) (insertBy cmp x xs)"
proof (induction xs)
  case Nil
  then show ?case by simp
next
  case (Cons y ys)
  show ?case
  proof (cases "cmp x y \<le> 0")
    case True
    then have "\<forall>z \<in> set ys. cmp x z \<le> 0" using Cons.prems trans by auto
    with True Cons.prems show ?thesis by simp
  next
    case False
    then have "cmp y x \<le> 0" using tot by blast
    with False Cons show ?thesis by auto
  qed
qed

lemma sorted_sortBy:
  assumes tot: "\<And>a b. cmp a b \<le> 0 \<or> cmp b a \<le> 0"
    and trans: "\<And>a b c. cmp a b \<le> 0 \<Longrightarrow> cmp b c \<le> 0 \<Longrightarrow> cmp a c \<le> 0"
  shows "sorted_wrt (\<lambda>a b. cmp a b \<le> 0) (sortBy cmp xs)"
proof (induction xs)
  case Nil
  then show ?case by (simp add: sortBy_def)
next
  case (Cons x xs)
  have "sortBy cmp (x # xs) = insertBy cmp x (sortBy cmp xs)" by (simp add: sortBy_def)
  then show ?case using sorted_insertBy[of cmp, OF tot trans Cons] by simp
qed

subsection \<open>Consistent comparators\<close>

lemma consistent_refl: "consistent cmp \<Longrightarrow> cmp a a = 0"
  by (simp add: consistent_def)

lemma consistent_flip: "consistent cmp \<Longrightarrow> cmp a b < 0 \<longleftrightarrow> 0 < cmp b a"
  by (simp add: consistent_def)

lemma consistent_total: "consistent cmp \<Longrightarrow> cmp a b \<le> 0 \<or> cmp b a \<le> 0"
proof -
  assume c: "consistent cmp"
  show ?thesis
  proof (cases "cmp a b \<le> 0")
    case True
    then show ?thesis by simp
  next
    case False
    then have "0 < cmp a b" by simp
    then have "cmp b a < 0" using consistent_flip[OF c, of b a] by simp
    then show ?thesis by simp
  qed
qed

lemma consistent_trans:
  "consistent cmp \<Longrightarrow> cmp a b \<le> 0 \<Longrightarrow> cmp b c \<le> 0 \<Longrightarrow> cmp a c \<le> 0"
  unfolding consistent_def by blast

lemma consistent_zero_sym: "consistent cmp \<Longrightarrow> cmp a b = 0 \<Longrightarrow> cmp b a = 0"
proof -
  assume c: "consistent cmp" and z: "cmp a b = 0"
  have "\<not> cmp b a < 0" using consistent_flip[OF c, of b a] z by simp
  moreover have "\<not> 0 < cmp b a" using consistent_flip[OF c, of a b] z by simp
  ultimately show ?thesis by simp
qed

lemma consistent_less_le_trans:
  assumes c: "consistent cmp" and ab: "cmp a b < 0" and bc: "cmp b c \<le> 0"
  shows "cmp a c < 0"
proof (rule ccontr)
  assume "\<not> cmp a c < 0"
  then have "cmp c a \<le> 0" using consistent_flip[OF c, of a c] by simp
  with bc have "cmp b a \<le> 0" by (rule consistent_trans[OF c])
  moreover have "0 < cmp b a" using consistent_flip[OF c, of a b] ab by simp
  ultimately show False by simp
qed

lemma consistent_le_less_trans:
  assumes c: "consistent cmp" and ab: "cmp a b \<le> 0" and bc: "cmp b c < 0"
  shows "cmp a c < 0"
proof (rule ccontr)
  assume "\<not> cmp a c < 0"
  then have "cmp c a \<le> 0" using consistent_flip[OF c, of a c] by simp
  from this ab have "cmp c b \<le> 0" by (rule consistent_trans[OF c])
  moreover have "0 < cmp c b" using consistent_flip[OF c, of b c] bc by simp
  ultimately show False by simp
qed

subsection \<open>The comparator of the contributors\<close>

lemma compareMembers_less: "compareMembers lc a b < 0 \<longleftrightarrow> rankedBefore lc a b"
  by (auto simp: compareMembers_def rankedBefore_def)

lemma compareMembers_zero: "compareMembers lc a b = 0 \<longleftrightarrow> tied lc a b"
  by (auto simp: compareMembers_def tied_def)

lemma compareMembers_le: "compareMembers lc a b \<le> 0 \<longleftrightarrow> rankedBefore lc a b \<or> tied lc a b"
  using compareMembers_less[of lc a b] compareMembers_zero[of lc a b] by linarith

lemma rankedBefore_irrefl: "consistent lc \<Longrightarrow> \<not> rankedBefore lc a a"
  by (simp add: rankedBefore_def consistent_refl)

lemma rankedBefore_trans:
  assumes c: "consistent lc" and ab: "rankedBefore lc a b" and bc: "rankedBefore lc b c"
  shows "rankedBefore lc a c"
proof -
  have n: "lc (member.name a) (member.name b) < 0 \<Longrightarrow> lc (member.name b) (member.name c) < 0 \<Longrightarrow>
      lc (member.name a) (member.name c) < 0"
    using consistent_less_le_trans[OF c, of "member.name a" "member.name b" "member.name c"]
    by simp
  show ?thesis using ab bc n unfolding rankedBefore_def by (elim disjE conjE) auto
qed

lemma rankedBefore_asym:
  assumes c: "consistent lc" and ab: "rankedBefore lc a b"
  shows "\<not> rankedBefore lc b a"
proof
  assume "rankedBefore lc b a"
  with ab have "rankedBefore lc a a" by (rule rankedBefore_trans[OF c])
  then show False using rankedBefore_irrefl[OF c] by simp
qed

lemma tied_sym: "consistent lc \<Longrightarrow> tied lc a b \<Longrightarrow> tied lc b a"
  by (auto simp: tied_def consistent_zero_sym)

lemma rankedBefore_tied:
  assumes c: "consistent lc" and ab: "rankedBefore lc a b" and bc: "tied lc b c"
  shows "rankedBefore lc a c"
proof -
  have n: "lc (member.name a) (member.name b) < 0 \<Longrightarrow> lc (member.name b) (member.name c) = 0 \<Longrightarrow>
      lc (member.name a) (member.name c) < 0"
    using consistent_less_le_trans[OF c, of "member.name a" "member.name b" "member.name c"]
    by simp
  show ?thesis using ab bc n unfolding rankedBefore_def tied_def by (elim disjE conjE) auto
qed

lemma tied_rankedBefore:
  assumes c: "consistent lc" and ab: "tied lc a b" and bc: "rankedBefore lc b c"
  shows "rankedBefore lc a c"
proof -
  have n: "lc (member.name a) (member.name b) = 0 \<Longrightarrow> lc (member.name b) (member.name c) < 0 \<Longrightarrow>
      lc (member.name a) (member.name c) < 0"
    using consistent_le_less_trans[OF c, of "member.name a" "member.name b" "member.name c"]
    by simp
  show ?thesis using ab bc n unfolding rankedBefore_def tied_def by (elim disjE conjE) auto
qed

lemma tied_trans:
  assumes c: "consistent lc" and ab: "tied lc a b" and bc: "tied lc b c"
  shows "tied lc a c"
proof -
  let ?a = "member.name a" and ?b = "member.name b" and ?c = "member.name c"
  have z: "lc ?a ?b = 0" "lc ?b ?c = 0" using ab bc by (simp_all add: tied_def)
  have "lc ?a ?c \<le> 0" using consistent_trans[OF c, of ?a ?b ?c] z by simp
  moreover have "lc ?c ?a \<le> 0"
    using consistent_trans[OF c, of ?c ?b ?a] consistent_zero_sym[OF c z(1)]
      consistent_zero_sym[OF c z(2)] by simp
  then have "\<not> lc ?a ?c < 0" using consistent_flip[OF c, of ?a ?c] by simp
  ultimately have "lc ?a ?c = 0" by simp
  then show ?thesis using ab bc by (simp add: tied_def)
qed

lemma rankedBefore_cases:
  assumes c: "consistent lc"
  shows "rankedBefore lc a b \<or> rankedBefore lc b a \<or> tied lc a b"
proof -
  let ?a = "member.name a" and ?b = "member.name b"
  have "lc ?a ?b < 0 \<or> lc ?b ?a < 0 \<or> lc ?a ?b = 0"
    using consistent_flip[OF c, of ?b ?a] by linarith
  then show ?thesis
    using linorder_less_linear[of "mergedMrs a" "mergedMrs b"]
      linorder_less_linear[of "member.commits a" "member.commits b"]
      linorder_less_linear[of "member.issuesClosed a" "member.issuesClosed b"]
    unfolding rankedBefore_def tied_def by (elim disjE) simp_all
qed

lemma rankedBefore_total:
  assumes c: "consistent lc" and s: "separates lc" and n: "member.name a \<noteq> member.name b"
  shows "rankedBefore lc a b \<or> rankedBefore lc b a"
proof -
  have "\<not> tied lc a b" using s n by (auto simp: tied_def separates_def)
  then show ?thesis using rankedBefore_cases[OF c, of a b] by simp
qed

lemma compareMembers_consistent:
  assumes c: "consistent lc"
  shows "consistent (compareMembers lc)"
  unfolding consistent_def
proof (intro conjI allI impI)
  fix a
  show "compareMembers lc a a = 0" by (simp add: compareMembers_def consistent_refl[OF c])
next
  fix a b
  show "compareMembers lc a b < 0 \<longleftrightarrow> 0 < compareMembers lc b a"
  proof
    assume "compareMembers lc a b < 0"
    then have r: "rankedBefore lc a b" by (simp add: compareMembers_less)
    then have "\<not> rankedBefore lc b a" by (rule rankedBefore_asym[OF c])
    moreover have "\<not> tied lc b a"
    proof
      assume "tied lc b a"
      with r have "rankedBefore lc a a" by (rule rankedBefore_tied[OF c])
      then show False using rankedBefore_irrefl[OF c] by simp
    qed
    ultimately have "\<not> compareMembers lc b a \<le> 0" by (simp add: compareMembers_le)
    then show "0 < compareMembers lc b a" by simp
  next
    assume "0 < compareMembers lc b a"
    then have n: "\<not> rankedBefore lc b a" "\<not> tied lc b a"
      using compareMembers_le[of lc b a] by simp_all
    then have "\<not> tied lc a b" using tied_sym[OF c, of a b] by blast
    then have "rankedBefore lc a b" using rankedBefore_cases[OF c, of a b] n by simp
    then show "compareMembers lc a b < 0" by (simp add: compareMembers_less)
  qed
next
  fix a b d
  assume "compareMembers lc a b \<le> 0 \<and> compareMembers lc b d \<le> 0"
  then have h: "rankedBefore lc a b \<or> tied lc a b" "rankedBefore lc b d \<or> tied lc b d"
    by (simp_all add: compareMembers_le)
  then have "rankedBefore lc a d \<or> tied lc a d"
    using rankedBefore_trans[OF c, of a b d] rankedBefore_tied[OF c, of a b d]
      tied_rankedBefore[OF c, of a b d] tied_trans[OF c, of a b d]
    by blast
  then show "compareMembers lc a d \<le> 0" by (simp add: compareMembers_le)
qed

lemma sorted_members:
  assumes c: "consistent lc"
  shows "sorted_wrt (\<lambda>a b. rankedBefore lc a b \<or> tied lc a b) (sortBy (compareMembers lc) xs)"
proof -
  note cc = compareMembers_consistent[OF c]
  have "sorted_wrt (\<lambda>a b. compareMembers lc a b \<le> 0) (sortBy (compareMembers lc) xs)"
    by (rule sorted_sortBy[OF consistent_total[OF cc] consistent_trans[OF cc]])
  then show ?thesis by (simp add: compareMembers_le)
qed

lemma sorted_members_strict:
  assumes c: "consistent lc" and s: "separates lc" and d0: "distinct (map member.name xs)"
  shows "sorted_wrt (rankedBefore lc) (sortBy (compareMembers lc) xs)"
proof -
  let ?ys = "sortBy (compareMembers lc) xs"
  have s1: "sorted_wrt (\<lambda>a b. rankedBefore lc a b \<or> tied lc a b) ?ys"
    by (rule sorted_members[OF c])
  have d: "distinct (map member.name ?ys)" using d0 by (simp add: distinct_map_sortBy)
  show ?thesis unfolding sorted_wrt_iff_nth_less
  proof (intro allI impI)
    fix i j assume ij: "i < j" "j < length ?ys"
    then have "rankedBefore lc (?ys ! i) (?ys ! j) \<or> tied lc (?ys ! i) (?ys ! j)"
      using s1 by (simp add: sorted_wrt_iff_nth_less)
    moreover have "member.name (?ys ! i) \<noteq> member.name (?ys ! j)"
    proof -
      have "i < length (map member.name ?ys)" "j < length (map member.name ?ys)" "i \<noteq> j"
        using ij by simp_all
      with d have "map member.name ?ys ! i \<noteq> map member.name ?ys ! j"
        unfolding distinct_conv_nth by blast
      then show ?thesis using ij by simp
    qed
    ultimately show "rankedBefore lc (?ys ! i) (?ys ! j)"
      using s by (auto simp: tied_def separates_def)
  qed
qed

lemma sorted_members_weak:
  assumes c: "consistent lc"
  shows "sorted_wrt (\<lambda>a b. \<not> rankedBefore lc b a) (sortBy (compareMembers lc) xs)"
proof (rule sorted_wrt_mono_rel[OF _ sorted_members[OF c]])
  fix a b
  assume "rankedBefore lc a b \<or> tied lc a b"
  then show "\<not> rankedBefore lc b a"
  proof
    assume "rankedBefore lc a b"
    then show ?thesis by (rule rankedBefore_asym[OF c])
  next
    assume t: "tied lc a b"
    show ?thesis
    proof
      assume "rankedBefore lc b a"
      from this t have "rankedBefore lc b b" by (rule rankedBefore_tied[OF c])
      then show False using rankedBefore_irrefl[OF c] by simp
    qed
  qed
qed

subsection \<open>The sample collation\<close>

lemma sampleCollation_less:
  "sampleCollation a b < 0 \<longleftrightarrow>
     map lowerCase a < map lowerCase b \<or> (map lowerCase a = map lowerCase b \<and> b < a)"
  by (auto simp: sampleCollation_def Let_def)

lemma sampleCollation_greater:
  "0 < sampleCollation a b \<longleftrightarrow>
     map lowerCase b < map lowerCase a \<or> (map lowerCase a = map lowerCase b \<and> a < b)"
  by (auto simp: sampleCollation_def Let_def)

lemma sampleCollation_le:
  "sampleCollation a b \<le> 0 \<longleftrightarrow>
     map lowerCase a < map lowerCase b \<or> (map lowerCase a = map lowerCase b \<and> b \<le> a)"
  using sampleCollation_greater[of a b] by (auto simp: not_less[symmetric])

lemma sampleCollation_consistent: "consistent sampleCollation"
  unfolding consistent_def
proof (intro conjI allI impI)
  fix a
  show "sampleCollation a a = 0" by (simp add: sampleCollation_def)
next
  fix a b
  show "sampleCollation a b < 0 \<longleftrightarrow> 0 < sampleCollation b a"
    unfolding sampleCollation_less sampleCollation_greater by auto
next
  fix a b c
  assume "sampleCollation a b \<le> 0 \<and> sampleCollation b c \<le> 0"
  then show "sampleCollation a c \<le> 0"
    unfolding sampleCollation_le by auto
qed

lemma sampleCollation_separates: "separates sampleCollation"
  unfolding separates_def
proof (intro allI impI)
  fix a b
  assume z: "sampleCollation a b = 0"
  have "\<not> b < a" "\<not> a < b"
    using z sampleCollation_less[of a b] sampleCollation_greater[of a b] by auto
  then show "a = b" by simp
qed

lemma sampleCollation_alice_Bob: "sampleCollation ''alice'' ''Bob'' = - 1"
  by (simp add: sampleCollation_def lowerCase_def)

section \<open>The loops of the contributor summaries\<close>

lemma names_ensure: "member.name ` set (ensure n ms) = insert n (member.name ` set ms)"
  by (auto simp: ensure_def newMember_def)

lemma distinct_ensure:
  "distinct (map member.name ms) \<Longrightarrow> distinct (map member.name (ensure n ms))"
  by (auto simp: ensure_def newMember_def)

lemma map_name_bump:
  assumes "\<And>m. member.name (incr m) = member.name m"
  shows "map member.name (bump incr ms e) = map member.name (ensure (resolveAuthorName (Some e)) ms)"
  by (simp add: bump_def Let_def assms)

lemma distinct_bump:
  assumes "\<And>m. member.name (incr m) = member.name m" "distinct (map member.name ms)"
  shows "distinct (map member.name (bump incr ms e))"
  unfolding map_name_bump[OF assms(1)] by (rule distinct_ensure[OF assms(2)])

lemma distinct_foldl_bump:
  assumes "\<And>m. member.name (incr m) = member.name m"
  shows "distinct (map member.name ms) \<Longrightarrow> distinct (map member.name (foldl (bump incr) ms es))"
  by (induction es arbitrary: ms) (simp_all add: distinct_bump[OF assms])

lemma names_map_same:
  assumes "\<And>m. member.name (g m) = member.name m"
  shows "member.name ` set (map g xs) = member.name ` set xs"
proof -
  have "map member.name (map g xs) = map member.name xs" by (simp add: assms)
  then have "set (map member.name (map g xs)) = set (map member.name xs)" by simp
  then show ?thesis by (simp only: set_map)
qed

text \<open>A loop that does not touch the commit counters.\<close>

lemma commitsAre_bump_other:
  assumes n: "\<And>m. member.name (incr m) = member.name m"
    and c: "\<And>m. member.commits (incr m) = member.commits m"
    and inv: "commitsAre cnt ms"
  shows "commitsAre cnt (bump incr ms e)"
proof -
  let ?n = "resolveAuthorName (Some e)"
  have e: "commitsAre cnt (ensure ?n ms)"
  proof (cases "?n \<in> member.name ` set ms")
    case True
    then show ?thesis using inv by (simp add: ensure_def)
  next
    case False
    then have "cnt ?n = 0" using inv unfolding commitsAre_def by auto
    then show ?thesis using inv False
      by (auto simp: commitsAre_def ensure_def newMember_def)
  qed
  show ?thesis unfolding bump_def Let_def commitsAre_def
  proof (intro conjI ballI allI impI)
    fix m assume "m \<in> set (map (\<lambda>m. if member.name m = ?n then incr m else m) (ensure ?n ms))"
    then obtain m0 where m0: "m0 \<in> set (ensure ?n ms)"
      and m: "m = (if member.name m0 = ?n then incr m0 else m0)" by auto
    then have "member.commits m = member.commits m0" "member.name m = member.name m0"
      using n c by auto
    then show "member.commits m = cnt (member.name m)" using e m0 unfolding commitsAre_def by auto
  next
    fix k assume "0 < cnt k"
    then have "k \<in> member.name ` set (ensure ?n ms)" using e unfolding commitsAre_def by auto
    moreover have "member.name ` set (map (\<lambda>m. if member.name m = ?n then incr m else m) (ensure ?n ms)) =
        member.name ` set (ensure ?n ms)"
      by (rule names_map_same) (simp add: n)
    ultimately show "k \<in> member.name ` set (map (\<lambda>m. if member.name m = ?n then incr m else m) (ensure ?n ms))"
      by simp
  qed
qed

lemma commitsAre_foldl_other:
  assumes n: "\<And>m. member.name (incr m) = member.name m"
    and c: "\<And>m. member.commits (incr m) = member.commits m"
  shows "commitsAre cnt ms \<Longrightarrow> commitsAre cnt (foldl (bump incr) ms es)"
  by (induction es arbitrary: ms) (simp_all add: commitsAre_bump_other[OF n c])

text \<open>The loop over the commits.\<close>

lemma commitsAre_bump_commit:
  assumes inv: "commitsAre (commitCount seen) ms"
  shows "commitsAre (commitCount (seen @ [e]))
           (bump (\<lambda>m. m\<lparr>member.commits := member.commits m + 1\<rparr>) ms e)"
proof -
  let ?n = "resolveAuthorName (Some e)"
  let ?incr = "\<lambda>m. m\<lparr>member.commits := member.commits m + 1\<rparr>"
  have cc: "commitCount (seen @ [e]) k = commitCount seen k + (if ?n = k then 1 else 0)" for k
    by (simp add: commitCount_def)
  have e: "commitsAre (commitCount seen) (ensure ?n ms)"
  proof (cases "?n \<in> member.name ` set ms")
    case True
    then show ?thesis using inv by (simp add: ensure_def)
  next
    case False
    then have "commitCount seen ?n = 0" using inv unfolding commitsAre_def by auto
    then show ?thesis using inv False
      by (auto simp: commitsAre_def ensure_def newMember_def)
  qed
  have in_n: "?n \<in> member.name ` set (ensure ?n ms)" by (simp add: names_ensure)
  show ?thesis unfolding bump_def Let_def commitsAre_def
  proof (intro conjI ballI allI impI)
    fix m assume "m \<in> set (map (\<lambda>m. if member.name m = ?n then ?incr m else m) (ensure ?n ms))"
    then obtain m0 where m0: "m0 \<in> set (ensure ?n ms)"
      and m: "m = (if member.name m0 = ?n then ?incr m0 else m0)" by auto
    have "member.commits m0 = commitCount seen (member.name m0)"
      using e m0 unfolding commitsAre_def by auto
    then show "member.commits m = commitCount (seen @ [e]) (member.name m)"
      using m by (auto simp: cc)
  next
    fix k assume k: "0 < commitCount (seen @ [e]) k"
    have "k \<in> member.name ` set (ensure ?n ms)"
    proof (cases "k = ?n")
      case True
      then show ?thesis using in_n by simp
    next
      case False
      then have "0 < commitCount seen k" using k by (simp add: cc)
      then show ?thesis using e unfolding commitsAre_def by auto
    qed
    moreover have "member.name ` set (map (\<lambda>m. if member.name m = ?n then ?incr m else m) (ensure ?n ms)) =
        member.name ` set (ensure ?n ms)"
      by (rule names_map_same) simp
    ultimately show "k \<in> member.name ` set (map (\<lambda>m. if member.name m = ?n then ?incr m else m) (ensure ?n ms))"
      by simp
  qed
qed

lemma commitsAre_foldl_commit:
  "commitsAre (commitCount seen) ms \<Longrightarrow>
   commitsAre (commitCount (seen @ es))
     (foldl (bump (\<lambda>m. m\<lparr>member.commits := member.commits m + 1\<rparr>)) ms es)"
proof (induction es arbitrary: ms seen)
  case Nil
  then show ?case by simp
next
  case (Cons e es)
  from Cons.IH[OF commitsAre_bump_commit[OF Cons.prems, of e]] show ?case by simp
qed

lemma commitsAre_countMembers:
  "commitsAre (commitCount cs) (countMembers cs mm mo io ic)"
proof -
  have "commitsAre (commitCount []) []" by (simp add: commitsAre_def commitCount_def)
  from commitsAre_foldl_commit[OF this, of cs]
  have "commitsAre (commitCount cs)
          (foldl (bump (\<lambda>m. m\<lparr>member.commits := member.commits m + 1\<rparr>)) [] cs)" by simp
  then have "commitsAre (commitCount cs)
          (foldl (bump (\<lambda>m. m\<lparr>mergedMrs := mergedMrs m + 1\<rparr>))
            (foldl (bump (\<lambda>m. m\<lparr>member.commits := member.commits m + 1\<rparr>)) [] cs) mm)"
    by (rule commitsAre_foldl_other[rotated 2]) simp_all
  then have "commitsAre (commitCount cs)
          (foldl (bump (\<lambda>m. m\<lparr>openedMrs := openedMrs m + 1\<rparr>))
            (foldl (bump (\<lambda>m. m\<lparr>mergedMrs := mergedMrs m + 1\<rparr>))
              (foldl (bump (\<lambda>m. m\<lparr>member.commits := member.commits m + 1\<rparr>)) [] cs) mm) mo)"
    by (rule commitsAre_foldl_other[rotated 2]) simp_all
  then have "commitsAre (commitCount cs)
          (foldl (bump (\<lambda>m. m\<lparr>member.issuesOpened := member.issuesOpened m + 1\<rparr>))
            (foldl (bump (\<lambda>m. m\<lparr>openedMrs := openedMrs m + 1\<rparr>))
              (foldl (bump (\<lambda>m. m\<lparr>mergedMrs := mergedMrs m + 1\<rparr>))
                (foldl (bump (\<lambda>m. m\<lparr>member.commits := member.commits m + 1\<rparr>)) [] cs) mm) mo) io)"
    by (rule commitsAre_foldl_other[rotated 2]) simp_all
  then have "commitsAre (commitCount cs)
          (foldl (bump (\<lambda>m. m\<lparr>member.issuesClosed := member.issuesClosed m + 1\<rparr>))
           (foldl (bump (\<lambda>m. m\<lparr>member.issuesOpened := member.issuesOpened m + 1\<rparr>))
            (foldl (bump (\<lambda>m. m\<lparr>openedMrs := openedMrs m + 1\<rparr>))
              (foldl (bump (\<lambda>m. m\<lparr>mergedMrs := mergedMrs m + 1\<rparr>))
                (foldl (bump (\<lambda>m. m\<lparr>member.commits := member.commits m + 1\<rparr>)) [] cs) mm) mo) io) ic)"
    by (rule commitsAre_foldl_other[rotated 2]) simp_all
  then show ?thesis unfolding countMembers_def Let_def .
qed

lemma distinct_countMembers: "distinct (map member.name (countMembers cs mm mo io ic))"
  unfolding countMembers_def Let_def by (intro distinct_foldl_bump) simp_all

text \<open>The sum of the commit counters.\<close>

lemma sum_bump_one:
  assumes "distinct (map member.name xs)" "n \<in> member.name ` set xs"
    and "\<And>m. f (incr m) = f m + 1"
  shows "sum_list (map f (map (\<lambda>m. if member.name m = n then incr m else m) xs)) =
         sum_list (map (f :: member \<Rightarrow> nat) xs) + 1"
  using assms(1,2)
proof (induction xs)
  case Nil
  then show ?case by simp
next
  case (Cons x xs)
  show ?case
  proof (cases "member.name x = n")
    case True
    then have "n \<notin> member.name ` set xs" using Cons.prems(1) by auto
    then have "map (\<lambda>m. if member.name m = n then incr m else m) xs = xs"
      by (intro map_idI) auto
    then show ?thesis using True assms(3) by simp
  next
    case False
    then have "n \<in> member.name ` set xs" using Cons.prems(2) by auto
    with Cons False show ?thesis by simp
  qed
qed

lemma sum_commits_bump_commit:
  assumes "distinct (map member.name ms)"
  shows "sum_list (map member.commits (bump (\<lambda>m. m\<lparr>member.commits := member.commits m + 1\<rparr>) ms e)) =
         sum_list (map member.commits ms) + 1"
proof -
  let ?n = "resolveAuthorName (Some e)"
  have "sum_list (map member.commits (ensure ?n ms)) = sum_list (map member.commits ms)"
    by (simp add: ensure_def newMember_def)
  moreover have "sum_list (map member.commits (bump (\<lambda>m. m\<lparr>member.commits := member.commits m + 1\<rparr>) ms e)) =
      sum_list (map member.commits (ensure ?n ms)) + 1"
    unfolding bump_def Let_def
    by (rule sum_bump_one[OF distinct_ensure[OF assms]]) (simp_all add: names_ensure)
  ultimately show ?thesis by simp
qed

lemma sum_commits_foldl_commit:
  "distinct (map member.name ms) \<Longrightarrow>
   sum_list (map member.commits
     (foldl (bump (\<lambda>m. m\<lparr>member.commits := member.commits m + 1\<rparr>)) ms es)) =
   sum_list (map member.commits ms) + length es"
proof (induction es arbitrary: ms)
  case Nil
  then show ?case by simp
next
  case (Cons e es)
  have d: "distinct (map member.name (bump (\<lambda>m. m\<lparr>member.commits := member.commits m + 1\<rparr>) ms e))"
    by (rule distinct_bump[OF _ Cons.prems]) simp
  from Cons.IH[OF d] sum_commits_bump_commit[OF Cons.prems, of e] show ?case by simp
qed

lemma sum_commits_bump_other:
  assumes "\<And>m. member.commits (incr m) = member.commits m"
  shows "sum_list (map member.commits (bump incr ms e)) = sum_list (map member.commits ms)"
proof -
  have "map member.commits (bump incr ms e) =
        map member.commits (ensure (resolveAuthorName (Some e)) ms)"
    by (simp add: bump_def Let_def assms)
  then show ?thesis by (simp add: ensure_def newMember_def)
qed

lemma sum_commits_foldl_other:
  assumes "\<And>m. member.commits (incr m) = member.commits m"
  shows "sum_list (map member.commits (foldl (bump incr) ms es)) = sum_list (map member.commits ms)"
  by (induction es arbitrary: ms) (simp_all add: sum_commits_bump_other[OF assms])

lemma sum_commits_countMembers:
  "sum_list (map member.commits (countMembers cs mm mo io ic)) = length cs"
proof -
  have "sum_list (map member.commits
          (foldl (bump (\<lambda>m. m\<lparr>member.commits := member.commits m + 1\<rparr>)) [] cs)) = length cs"
    using sum_commits_foldl_commit[of "[]" cs] by simp
  then show ?thesis unfolding countMembers_def Let_def
    by (simp add: sum_commits_foldl_other)
qed


lemma member_le_sum: "m \<in> set ms \<Longrightarrow> member.commits m \<le> sum_list (map member.commits ms)"
  by (induction ms) auto

lemma sum_error:
  fixes p :: "'a \<Rightarrow> int" and q :: "'a \<Rightarrow> rat" and c :: "'a \<Rightarrow> nat"
  assumes "\<forall>x \<in> set xs. \<bar>of_int (p x) - q x\<bar> \<le> (if c x \<noteq> 0 then 1 / 2 else 0)"
  shows "\<bar>of_int (sum_list (map p xs)) - sum_list (map q xs)\<bar> \<le>
         of_nat (length (filter (\<lambda>x. c x \<noteq> 0) xs)) / 2"
  using assms
proof (induction xs)
  case Nil
  then show ?case by simp
next
  case (Cons x xs)
  have ih: "\<bar>of_int (sum_list (map p xs)) - sum_list (map q xs)\<bar> \<le>
         of_nat (length (filter (\<lambda>x. c x \<noteq> 0) xs)) / 2"
    using Cons by simp
  have x: "\<bar>of_int (p x) - q x\<bar> \<le> (if c x \<noteq> 0 then 1 / 2 else 0)" using Cons.prems by simp
  have "\<bar>of_int (sum_list (map p (x # xs))) - sum_list (map q (x # xs))\<bar> =
        \<bar>(of_int (p x) - q x) + (of_int (sum_list (map p xs)) - sum_list (map q xs))\<bar>"
    by simp
  also have "\<dots> \<le> \<bar>of_int (p x) - q x\<bar> + \<bar>of_int (sum_list (map p xs)) - sum_list (map q xs)\<bar>"
    by (rule abs_triangle_ineq)
  also have "\<dots> \<le> (if c x \<noteq> 0 then 1 / 2 else 0) + of_nat (length (filter (\<lambda>x. c x \<noteq> 0) xs)) / 2"
    using x ih by (rule add_mono)
  also have "\<dots> = of_nat (length (filter (\<lambda>x. c x \<noteq> 0) (x # xs))) / 2"
    by simp
  finally show ?case .
qed

lemma sum_list_share:
  "sum_list (map (\<lambda>m. 100 * of_nat (f m) / (of_nat t :: rat)) ms) =
   100 * of_nat (sum_list (map f ms)) / of_nat t"
  by (induction ms) (simp_all add: add_divide_distrib distrib_left)

lemma buildMemberSummaries_set:
  "set (buildMemberSummaries lc cs mm mo io ic) =
   setCommitPct (length cs) ` set (countMembers cs mm mo io ic)"
  by (simp add: buildMemberSummaries_def Let_def)


lemma scenario_members:
  "buildMemberSummaries lc sampleCommits [commitBy ''Alice''] [commitBy ''Alice''] [] [] =
   [\<lparr>member.name = ''Alice'', member.commits = 3, commitPct = 60, mergedMrs = 1, openedMrs = 1,
     member.issuesOpened = 0, member.issuesClosed = 0\<rparr>,
    \<lparr>member.name = ''Bob'', member.commits = 2, commitPct = 40, mergedMrs = 0, openedMrs = 0,
     member.issuesOpened = 0, member.issuesClosed = 0\<rparr>]"
proof -
  have a: "roundedPercent (Suc (Suc (Suc 0))) (Suc (Suc (Suc (Suc (Suc 0))))) = 60"
    using rp60 by (simp add: eval_nat_numeral)
  have b: "roundedPercent (Suc (Suc 0)) (Suc (Suc (Suc (Suc (Suc 0))))) = 40"
    using rp40 by (simp add: eval_nat_numeral)
  show ?thesis
    by (simp add: buildMemberSummaries_def countMembers_def bump_def ensure_def newMember_def
      sampleCommits_def commitBy_def emptyItem_def resolveAuthorName_def authorField_def
      setCommitPct_def a b sortBy_def compareMembers_def Let_def
      eval_nat_numeral)
qed


section \<open>Rendering: evaluation and order lemmas\<close>

lemma digits_small: "n < 10 \<Longrightarrow> digits n = [digitChar n]"
  by (subst digits.simps) simp




lemma count_list_insertBy:
  "count_list (insertBy cmp x xs) y = count_list (x # xs) y"
  by (induction xs) auto

lemma count_list_sortBy: "count_list (sortBy cmp xs) y = count_list xs y"
  by (induction xs) (auto simp: sortBy_def count_list_insertBy)

lemma sorted_insertBy_on:
  assumes tot: "\<And>a b. a \<in> A \<Longrightarrow> b \<in> A \<Longrightarrow> cmp a b \<le> 0 \<or> cmp b a \<le> 0"
    and trans: "\<And>a b c. a \<in> A \<Longrightarrow> b \<in> A \<Longrightarrow> c \<in> A \<Longrightarrow>
                  cmp a b \<le> 0 \<Longrightarrow> cmp b c \<le> 0 \<Longrightarrow> cmp a c \<le> 0"
  shows "x \<in> A \<Longrightarrow> set xs \<subseteq> A \<Longrightarrow> sorted_wrt (\<lambda>a b. cmp a b \<le> 0) xs \<Longrightarrow>
         sorted_wrt (\<lambda>a b. cmp a b \<le> 0) (insertBy cmp x xs)"
proof (induction xs)
  case Nil
  then show ?case by simp
next
  case (Cons y ys)
  show ?case
  proof (cases "cmp x y \<le> 0")
    case True
    have "\<forall>z \<in> set ys. cmp x z \<le> 0"
    proof
      fix z assume z: "z \<in> set ys"
      then have "cmp y z \<le> 0" using Cons.prems(3) by simp
      with True show "cmp x z \<le> 0" using trans[of x y z] Cons.prems(1,2) z by auto
    qed
    with True Cons.prems show ?thesis by simp
  next
    case False
    then have "cmp y x \<le> 0" using tot[of x y] Cons.prems by auto
    with False Cons show ?thesis by auto
  qed
qed

lemma sorted_sortBy_on:
  assumes tot: "\<And>a b. a \<in> A \<Longrightarrow> b \<in> A \<Longrightarrow> cmp a b \<le> 0 \<or> cmp b a \<le> 0"
    and trans: "\<And>a b c. a \<in> A \<Longrightarrow> b \<in> A \<Longrightarrow> c \<in> A \<Longrightarrow>
                  cmp a b \<le> 0 \<Longrightarrow> cmp b c \<le> 0 \<Longrightarrow> cmp a c \<le> 0"
  shows "set xs \<subseteq> A \<Longrightarrow> sorted_wrt (\<lambda>a b. cmp a b \<le> 0) (sortBy cmp xs)"
proof (induction xs)
  case Nil
  then show ?case by (simp add: sortBy_def)
next
  case (Cons x xs)
  have e: "sortBy cmp (x # xs) = insertBy cmp x (sortBy cmp xs)" by (simp add: sortBy_def)
  have "sorted_wrt (\<lambda>a b. cmp a b \<le> 0) (insertBy cmp x (sortBy cmp xs))"
    by (rule sorted_insertBy_on[of A cmp, OF tot trans]) (use Cons in auto)
  then show ?case by (simp only: e)
qed

lemma compareMrTime_le:
  "timeKey a \<noteq> None \<Longrightarrow> timeKey b \<noteq> None \<Longrightarrow>
   compareMrTime a b \<le> 0 \<longleftrightarrow> the (timeKey b) \<le> the (timeKey a)"
  by (auto simp: compareMrTime_def)

lemma sorted_by_time:
  assumes "\<forall>mr \<in> set mrs. timeKey mr \<noteq> None"
  shows "sorted_wrt (\<lambda>a b. the (timeKey b) \<le> the (timeKey a)) (sortBy compareMrTime mrs)"
proof -
  let ?A = "{mr. timeKey mr \<noteq> None}"
  have s: "sorted_wrt (\<lambda>a b. compareMrTime a b \<le> 0) (sortBy compareMrTime mrs)"
  proof (rule sorted_sortBy_on[of ?A])
    show "set mrs \<subseteq> ?A" using assms by auto
  qed (auto simp: compareMrTime_le)
  have k: "\<forall>x \<in> set (sortBy compareMrTime mrs). timeKey x \<noteq> None" using assms by simp
  show ?thesis
  proof (rule sorted_wrt_mono_rel[OF _ s])
    fix x y assume "x \<in> set (sortBy compareMrTime mrs)" "y \<in> set (sortBy compareMrTime mrs)"
      "compareMrTime x y \<le> 0"
    then show "the (timeKey y) \<le> the (timeKey x)" using k by (simp add: compareMrTime_le)
  qed
qed

lemma major_features_sorted:
  assumes k: "\<forall>mr \<in> set mrs. timeKey mr \<noteq> None"
  shows "let shown = majorFeaturesTop mrs; others = drop 5 (sortBy compareMrTime mrs)
      in length shown = min 5 (length mrs) \<and>
         (\<forall>x. count_list (shown @ others) x = count_list mrs x) \<and>
         sorted_wrt (\<lambda>a b. the (timeKey b) \<le> the (timeKey a)) shown \<and>
         (\<forall>y \<in> set shown. \<forall>x \<in> set others. the (timeKey x) \<le> the (timeKey y))"
proof -
  let ?s = "sortBy compareMrTime mrs"
  have srt: "sorted_wrt (\<lambda>a b. the (timeKey b) \<le> the (timeKey a)) ?s"
    by (rule sorted_by_time[OF k])
  then have "sorted_wrt (\<lambda>a b. the (timeKey b) \<le> the (timeKey a)) (take 5 ?s @ drop 5 ?s)"
    by simp
  then have parts: "sorted_wrt (\<lambda>a b. the (timeKey b) \<le> the (timeKey a)) (take 5 ?s)"
    "\<forall>y \<in> set (take 5 ?s). \<forall>x \<in> set (drop 5 ?s). the (timeKey x) \<le> the (timeKey y)"
    unfolding sorted_wrt_append by auto
  have cnt: "\<forall>x. count_list (take 5 ?s @ drop 5 ?s) x = count_list mrs x"
    by (simp add: count_list_sortBy)
  have len: "length (take 5 ?s) = min 5 (length mrs)" by (simp add: min.commute)
  show ?thesis unfolding Let_def majorFeaturesTop_def using parts cnt len by blast
qed

lemma top_BA: "majorFeaturesTop [mrA, mrB] = [mrB, mrA]"
  by (simp add: majorFeaturesTop_def sortBy_def compareMrTime_def timeKey_def mrA_def mrB_def
      emptyItem_def)


text \<open>The double product \<open>(23 / 40) * 100\<close> lies just below \<open>57.5\<close>, so the tie is
  rounded down: the percentage is 57, where exact arithmetic would round to 58.\<close>

lemma roundedPercent_tie: "roundedPercent 23 40 = 57"
proof -
  have a: "toDouble (23 / 40) = of_int 5179139571476070 * 2 powi (- 1 - 52)"
    by (rule toDouble_eqI) simp_all
  have b: "toDouble (of_int 5179139571476070 * 2 powi (- 1 - 52) * 100) =
        of_int 8092405580431359 * 2 powi (5 - 52)"
    by (rule toDouble_eqI) simp_all
  have "roundedPercent 23 40 = mathRound (toDouble (toDouble (23 / 40) * 100))"
    by (simp add: roundedPercent_def mulDouble_def divCounts_def)
  also have "\<dots> = mathRound (of_int 8092405580431359 * 2 powi (5 - 52))"
    by (simp only: a b)
  also have "\<dots> = 57"
    by (simp add: mathRound_def floor_eq_iff)
  finally show ?thesis .
qed

section \<open>The report without activity\<close>

lemma digits_0: "digits 0 = ''0''"
  by (simp add: digits.simps digitChar_def)

lemma formatCount_0: "formatCount 0 = ''0''"
  by (simp add: formatCount_def digits_0)

lemma formatBugActivity_empty: "formatBugActivity [] [] = emptyBugActivity"
  by (simp add: formatBugActivity_def formatTable_def formatRow_def columnWidth_def
      formatCount_0 plural_def emptyBugActivity_def upt_rec)

lemma formatTeamMembers_empty:
  "formatTeamMembers [] ''**Team Members Metrics**'' = emptyTeamMembers"
  by (simp add: formatTeamMembers_def emptyTeamMembers_def)

lemma buildMemberSummaries_empty: "buildMemberSummaries lc [] [] [] [] [] = []"
  by (simp add: buildMemberSummaries_def countMembers_def sortBy_def)

lemma concat_inactive:
  "filter hasActivity results = [] \<Longrightarrow> filter (\<lambda>p. \<not> hasActivity p) results = results"
  by (induction results) (auto split: if_splits)

lemma compact_Some: "s \<noteq> [] \<Longrightarrow> compact (Some s # bs) = s # compact bs"
  by (simp add: compact_def List.map_filter_simps)

lemma compact_None: "compact (None # bs) = compact bs"
  by (simp add: compact_def List.map_filter_simps)

lemma compact_Nil: "compact [] = []"
  by (simp add: compact_def List.map_filter_simps)

lemma emptyBugActivity_nonempty: "emptyBugActivity \<noteq> []"
  by (simp add: emptyBugActivity_def)

lemma report_without_activity:
  assumes a: "filter hasActivity results = []"
  shows "summaryLine (buildReport lc cfg isClientProject results) =
        ''No activity recorded in the selected window.'' \<and>
      internalBlock (buildReport lc cfg isClientProject results) = None \<and>
      clientBlock (buildReport lc cfg isClientProject results) = None \<and>
      majorFeaturesBlock (buildReport lc cfg isClientProject results) = None \<and>
      velocityHighlightBlock (buildReport lc cfg isClientProject results) = None \<and>
      commitBreakdownBlock (buildReport lc cfg isClientProject results) = None \<and>
      bugActivityBlock (buildReport lc cfg isClientProject results) = emptyBugActivity \<and>
      teamMembersBlock (buildReport lc cfg isClientProject results) = emptyTeamMembers \<and>
      emptyBugActivity \<in> set (organizationalBlocks (buildReport lc cfg isClientProject results)) \<and>
      emptyTeamMembers \<in> set (teamBlocks (buildReport lc cfg isClientProject results))"
proof -
  have tm: "emptyTeamMembers \<noteq> []" by (simp add: emptyTeamMembers_def)
  show ?thesis
    unfolding buildReport_def Let_def a
    by (simp add: formatOrgSummary_def formatMajorFeatures_def formatCommitBreakdown_def
        formatVelocityHighlights_def formatBugActivity_empty formatTeamMembers_empty
        buildMemberSummaries_empty compact_def List.map_filter_simps
        emptyBugActivity_nonempty tm)
qed

lemma idle_inactive: "filter hasActivity [idleProject] = []"
  by (simp add: hasActivity_def idleProject_def)


section \<open>Shares halfway between two integers\<close>

lemma roundedPercent_exact:
  assumes b: "0 < b" and a: "a < 2 ^ 32" and h: "\<not> halfway a b"
  shows "roundedPercent a b = specPercent a b"
proof -
  define v :: rat where "v = 100 * of_nat a / of_nat b"
  define r where "r = roundedPercent a b"
  have n: "\<bar>of_int r - v\<bar> \<le> 1 / 2"
    unfolding r_def v_def by (rule roundedPercent_nearest[OF b a])
  have f: "v - of_int \<lfloor>v\<rfloor> \<noteq> 1 / 2" using h by (simp add: halfway_def Let_def v_def)
  have up: "of_int r - v \<noteq> 1 / 2"
  proof
    assume e: "of_int r - v = 1 / 2"
    have "\<lfloor>v\<rfloor> = r - 1" using e by (simp add: floor_eq_iff; linarith)
    then show False using f e by simp
  qed
  have down: "v - of_int r \<noteq> 1 / 2"
  proof
    assume e: "v - of_int r = 1 / 2"
    have "\<lfloor>v\<rfloor> = r" using e by (simp add: floor_eq_iff; linarith)
    then show False using f e by simp
  qed
  have "\<lfloor>v + 1 / 2\<rfloor> = r" using n up down by (simp add: floor_eq_iff; linarith)
  then show ?thesis by (simp add: specPercent_def mathRound_def v_def r_def)
qed

lemma rp43: "roundedPercent 17 40 = 43"
proof -
  have a: "toDouble (17 / 40) = of_int 7656119366529843 * 2 powi (- 2 - 52)"
    by (rule toDouble_eqI) simp_all
  have b: "toDouble (of_int 7656119366529843 * 2 powi (- 2 - 52) * 100) =
        of_int 5981343255101440 * 2 powi (5 - 52)"
    by (rule toDouble_eqI) simp_all
  have "roundedPercent 17 40 = mathRound (toDouble (toDouble (17 / 40) * 100))"
    by (simp add: roundedPercent_def mulDouble_def divCounts_def)
  also have "\<dots> = mathRound (of_int 5981343255101440 * 2 powi (5 - 52))"
    by (simp only: a b)
  also have "\<dots> = 43"
    by (simp add: mathRound_def floor_eq_iff)
  finally show ?thesis .
qed

lemma specPercent_tie: "specPercent 23 40 = 58"
  by (simp add: specPercent_def mathRound_def floor_eq_iff)

lemma halfway_tie: "halfway 23 40"
proof -
  have "\<lfloor>100 * 23 / 40 :: rat\<rfloor> = 57" by (simp add: floor_eq_iff)
  then show ?thesis by (simp add: halfway_def Let_def)
qed

lemma tie_members:
  "buildMemberSummaries lc tieCommits [] [] [] [] =
   [\<lparr>member.name = ''Ann'', member.commits = 23, commitPct = 57, mergedMrs = 0, openedMrs = 0,
     member.issuesOpened = 0, member.issuesClosed = 0\<rparr>,
    \<lparr>member.name = ''Bob'', member.commits = 17, commitPct = 43, mergedMrs = 0, openedMrs = 0,
     member.issuesOpened = 0, member.issuesClosed = 0\<rparr>]"
proof -
  show ?thesis
    using roundedPercent_tie rp43
    by (simp add: buildMemberSummaries_def countMembers_def bump_def ensure_def newMember_def
      tieCommits_def commitBy_def emptyItem_def resolveAuthorName_def authorField_def
      setCommitPct_def sortBy_def compareMembers_def Let_def replicate_app_Cons_same
      eval_nat_numeral)
qed

lemma alice_Bob_members:
  "map member.name
     (buildMemberSummaries sampleCollation [commitBy ''Bob'', commitBy ''alice''] [] [] [] []) =
   [''alice'', ''Bob'']"
  by (simp add: buildMemberSummaries_def countMembers_def bump_def ensure_def newMember_def
      commitBy_def emptyItem_def resolveAuthorName_def authorField_def
      setCommitPct_def sortBy_def compareMembers_def Let_def sampleCollation_def
      lowerCase_def)

section \<open>Author resolution: the fallback chain\<close>


text \<open>
  Claim C7. The resolved name follows the chain \<open>author.name\<close>, \<open>author.username\<close>,
  \<open>author_name\<close>, then the email (\<open>author_email\<close> before \<open>author.email\<close>): it is the first
  of these that is present and not empty, and \<open>Unknown\<close> when none is, or when there is no
  record at all. So a record with only an email resolves to that email, and a record with
  no author field resolves to \<open>Unknown\<close>.
\<close>

theorem resolveAuthorName_chain:
  "resolveAuthorName None = ''Unknown'' \<and>
   (truthy (authorField author.name e) \<longrightarrow>
      Some (resolveAuthorName (Some e)) = authorField author.name e) \<and>
   (\<not> truthy (authorField author.name e) \<and> truthy (authorField author.username e) \<longrightarrow>
      Some (resolveAuthorName (Some e)) = authorField author.username e) \<and>
   (\<not> truthy (authorField author.name e) \<and> \<not> truthy (authorField author.username e) \<and>
    truthy (author_name e) \<longrightarrow>
      Some (resolveAuthorName (Some e)) = author_name e) \<and>
   (\<not> truthy (authorField author.name e) \<and> \<not> truthy (authorField author.username e) \<and>
    \<not> truthy (author_name e) \<and> truthy (author_email e) \<longrightarrow>
      Some (resolveAuthorName (Some e)) = author_email e) \<and>
   (\<not> truthy (authorField author.name e) \<and> \<not> truthy (authorField author.username e) \<and>
    \<not> truthy (author_name e) \<and> \<not> truthy (author_email e) \<and>
    truthy (authorField author.email e) \<longrightarrow>
      Some (resolveAuthorName (Some e)) = authorField author.email e) \<and>
   (\<not> truthy (authorField author.name e) \<and> \<not> truthy (authorField author.username e) \<and>
    \<not> truthy (author_name e) \<and> \<not> truthy (author_email e) \<and>
    \<not> truthy (authorField author.email e) \<longrightarrow>
      resolveAuthorName (Some e) = ''Unknown'')"
  by (simp add: resolveAuthorName_def truthy_def split: option.splits)

theorem resolveAuthorName_chain_witness:
  "resolveAuthorName (Some (emptyItem\<lparr>author_email := Some ''dev@example.com''\<rparr>)) =
     ''dev@example.com'' \<and>
   resolveAuthorName
     (Some (emptyItem\<lparr>item.author :=
        Some \<lparr>author.name = None, username = None, email = Some ''dev@example.com''\<rparr>\<rparr>)) =
     ''dev@example.com'' \<and>
   resolveAuthorName (Some emptyItem) = ''Unknown'' \<and>
   resolveAuthorName
     (Some (emptyItem\<lparr>item.author :=
        Some \<lparr>author.name = Some ''Ann'', username = Some ''ann1'', email = None\<rparr>,
        author_name := Some ''A. N.''\<rparr>)) = ''Ann'' \<and>
   resolveAuthorName
     (Some (emptyItem\<lparr>item.author :=
        Some \<lparr>author.name = None, username = Some ''ann1'', email = None\<rparr>,
        author_name := Some ''A. N.''\<rparr>)) = ''ann1'' \<and>
   resolveAuthorName
     (Some (emptyItem\<lparr>author_name := Some ''A. N.'',
        author_email := Some ''dev@example.com''\<rparr>)) = ''A. N.''"
  using resolveAuthorName_chain [of "emptyItem\<lparr>author_email := Some ''dev@example.com''\<rparr>"]
    resolveAuthorName_chain [of "emptyItem\<lparr>item.author :=
        Some \<lparr>author.name = None, username = None, email = Some ''dev@example.com''\<rparr>\<rparr>"]
    resolveAuthorName_chain [of emptyItem]
    resolveAuthorName_chain [of "emptyItem\<lparr>item.author :=
        Some \<lparr>author.name = Some ''Ann'', username = Some ''ann1'', email = None\<rparr>,
        author_name := Some ''A. N.''\<rparr>"]
    resolveAuthorName_chain [of "emptyItem\<lparr>item.author :=
        Some \<lparr>author.name = None, username = Some ''ann1'', email = None\<rparr>,
        author_name := Some ''A. N.''\<rparr>"]
    resolveAuthorName_chain [of "emptyItem\<lparr>author_name := Some ''A. N.'',
        author_email := Some ''dev@example.com''\<rparr>"]
  by (simp add: emptyItem_def authorField_def truthy_def)


section \<open>The chunker: the claims\<close>

text \<open>
  Claim C3. For every text and every positive limit the chunker returns, and every chunk
  has at most \<open>limit\<close> code units, the pieces of a hard-split line included. The empty
  text gives no chunk. A single line longer than the limit gives
  \<open>ceil(length / limit)\<close> chunks whose concatenation is the line; so a line of 5000 code
  units gives 3 chunks under the default limit of 1800.
\<close>

theorem chunkMessage_within_limit:
  "(0 < limit \<longrightarrow>
      (\<exists>chunks. chunkMessage text limit = Some chunks \<and>
         (\<forall>c \<in> set chunks. length c \<le> limit))) \<and>
   chunkMessage [] limit = Some [] \<and>
   (0 < limit \<and> limit < length text \<and> newline \<notin> set text \<longrightarrow>
      (\<exists>chunks. chunkMessage text limit = Some chunks \<and>
         length chunks = (length text + limit - 1) div limit \<and> concat chunks = text)) \<and>
   (length text = 5000 \<and> newline \<notin> set text \<longrightarrow>
      (\<exists>chunks. chunkMessage text defaultLimit = Some chunks \<and> length chunks = 3 \<and>
         concat chunks = text \<and> (\<forall>c \<in> set chunks. length c \<le> 1800)))"
proof (intro conjI impI)
  assume "0 < limit"
  from chunkMessage_ok[OF this, of "text"]
  show "\<exists>chunks. chunkMessage text limit = Some chunks \<and> (\<forall>c \<in> set chunks. length c \<le> limit)"
    by (auto simp: okChunk_def)
next
  show "chunkMessage [] limit = Some []" by (simp add: chunkMessage_def)
next
  assume a: "0 < limit \<and> limit < length text \<and> newline \<notin> set text"
  then have "chunkMessage text limit = Some (chop limit text)"
    by (intro chunkMessage_single_line) simp_all
  then show "\<exists>chunks. chunkMessage text limit = Some chunks \<and>
         length chunks = (length text + limit - 1) div limit \<and> concat chunks = text"
    using a by (simp add: length_chop concat_chop)
next
  assume a: "length text = 5000 \<and> newline \<notin> set text"
  then have "chunkMessage text defaultLimit = Some (chop defaultLimit text)"
    by (intro chunkMessage_single_line) (simp_all add: defaultLimit_def)
  moreover have "length (chop defaultLimit text) = 3"
    using a by (simp add: length_chop defaultLimit_def)
  moreover have "concat (chop defaultLimit text) = text"
    by (simp add: concat_chop defaultLimit_def)
  moreover have "\<forall>c \<in> set (chop defaultLimit text). length c \<le> 1800"
    using chop_length_le[of _ defaultLimit "text"] by (simp add: defaultLimit_def)
  ultimately show "\<exists>chunks. chunkMessage text defaultLimit = Some chunks \<and> length chunks = 3 \<and>
         concat chunks = text \<and> (\<forall>c \<in> set chunks. length c \<le> 1800)"
    by simp
qed

theorem chunkMessage_within_limit_witness:
  "(\<exists>chunks. chunkMessage (replicate 5000 (CHR ''a'')) 1800 = Some chunks \<and>
      (\<forall>c \<in> set chunks. length c \<le> 1800) \<and> length chunks = 3 \<and>
      concat chunks = replicate 5000 (CHR ''a''))"
  using chunkMessage_within_limit [of 1800 "replicate 5000 (CHR ''a'')"]
  by (auto simp: defaultLimit_def newline_def)

text \<open>
  Claim C9. For every text and every positive limit, no chunk that the chunker returns
  is empty; and the dispatcher, which chunks under the default limit, returns and posts
  no empty payload.
\<close>

theorem chunks_nonempty:
  "(0 < limit \<longrightarrow> (\<exists>chunks. chunkMessage text limit = Some chunks \<and> [] \<notin> set chunks)) \<and>
   (\<exists>posted. postMessageBlocks blocks = Some posted \<and> [] \<notin> set posted)"
proof (intro conjI impI)
  assume "0 < limit"
  from chunkMessage_ok[OF this, of "text"]
  show "\<exists>chunks. chunkMessage text limit = Some chunks \<and> [] \<notin> set chunks"
    by (auto simp: okChunk_def)
next
  show "\<exists>posted. postMessageBlocks blocks = Some posted \<and> [] \<notin> set posted"
    by (rule postMessageBlocks_returns)
qed

theorem chunks_nonempty_witness:
  "(\<exists>chunks. chunkMessage (''ab'' @ [newline, newline] @ ''cdefg'') 3 = Some chunks \<and>
      [] \<notin> set chunks) \<and>
   chunkMessage (''ab'' @ [newline, newline] @ ''cdefg'') 3 = Some [''ab'' @ [newline], ''cde'', ''fg'']"
proof -
  have s: "splitNewline (''ab'' @ [newline, newline] @ ''cdefg'') = [''ab'', [], ''cdefg'']"
    by (simp add: newline_def)
  have c: "chop 3 ''cdefg'' = [''cde'', ''fg'']"
    by (simp add: chop.simps)
  have "chunkMessage (''ab'' @ [newline, newline] @ ''cdefg'') 3 = Some [''ab'' @ [newline], ''cde'', ''fg'']"
    unfolding chunkMessage_def s by (simp add: chunkStep_eq c)
  then show ?thesis
    using chunks_nonempty [of 3 "''ab'' @ [newline, newline] @ ''cdefg''"] by simp
qed

text \<open>
  Claim C4, as the code has it. Joining the chunks with a newline at each line-boundary
  split and nothing at each hard split does not always give the text back: an empty line
  that falls on a chunk boundary is dropped, since an empty \<open>current\<close> counts as no
  chunk in progress. What holds for every text and every positive limit: the text is the
  chunks in order with a run of newlines, possibly empty, reinserted at each chunk
  boundary and at the two ends; and nothing is reinserted at the two ends when the text
  neither starts nor ends with a newline, as after \<open>trim\<close>.
\<close>

theorem chunks_rejoin:
  "0 < limit \<Longrightarrow>
   \<exists>chunks seps. chunkMessage text limit = Some chunks \<and>
     length seps = Suc (length chunks) \<and> (\<forall>s \<in> set seps. set s \<subseteq> {newline}) \<and>
     weave seps chunks = text \<and>
     (text \<noteq> [] \<and> hd text \<noteq> newline \<and> last text \<noteq> newline \<longrightarrow>
        hd seps = [] \<and> last seps = [])"
proof -
  assume l: "0 < limit"
  from chunkMessage_ok[OF l, of "text"] obtain chunks
    where c: "chunkMessage text limit = Some chunks" by blast
  from chunkMessage_rejoins[OF l c] obtain seps where
    s: "length seps = Suc (length chunks)" "\<forall>s \<in> set seps. set s \<subseteq> {newline}"
      "weave seps chunks = text"
    unfolding rejoins_def by blast
  have "text \<noteq> [] \<and> hd text \<noteq> newline \<and> last text \<noteq> newline \<longrightarrow>
        hd seps = [] \<and> last seps = []"
    using weave_ends[OF s] by blast
  with c s show ?thesis by blast
qed

theorem chunks_rejoin_witness:
  "\<exists>chunks seps. chunkMessage (''AAAA'' @ [newline, newline] @ ''BBBB'') 4 = Some chunks \<and>
     length seps = Suc (length chunks) \<and> (\<forall>s \<in> set seps. set s \<subseteq> {newline}) \<and>
     weave seps chunks = ''AAAA'' @ [newline, newline] @ ''BBBB'' \<and>
     hd seps = [] \<and> last seps = []"
  using chunks_rejoin [of 4 "''AAAA'' @ [newline, newline] @ ''BBBB''"]
  by (simp add: newline_def)

text \<open>
  The claim C4 as stated fails on two blocks, the first of exactly 1800 code units: the
  dispatcher joins them with a blank line, the chunker returns the two blocks, and neither
  reinserting nothing nor reinserting one newline gives the text back.
\<close>

theorem chunks_rejoin_counterexample:
  "postMessageBlocks [Some (replicate 1800 (CHR ''A'')), Some ''B''] =
     Some [replicate 1800 (CHR ''A''), ''B''] \<and>
   trim (joinWith [newline, newline] (compact [Some (replicate 1800 (CHR ''A'')), Some ''B''])) =
     replicate 1800 (CHR ''A'') @ [newline, newline] @ ''B'' \<and>
   replicate 1800 (CHR ''A'') @ ''B'' \<noteq> replicate 1800 (CHR ''A'') @ [newline, newline] @ ''B'' \<and>
   replicate 1800 (CHR ''A'') @ [newline] @ ''B'' \<noteq>
     replicate 1800 (CHR ''A'') @ [newline, newline] @ ''B''"
proof -
  let ?A = "replicate 1800 (CHR ''A'')"
  let ?t = "?A @ [newline, newline] @ ''B''"
  have cp: "compact [Some ?A, Some ''B''] = [?A, ''B'']"
    by (simp add: compact_def List.map_filter_simps)
  have ns: "\<not> isSpace (CHR ''A'')" "\<not> isSpace (CHR ''B'')" by (simp_all add: isSpace_def)
  have d1: "dropWhile isSpace ?t = ?t" by (simp add: dropWhile_eq_self_iff hd_append ns)
  have tr: "trim ?t = ?t" unfolding trim_def d1 by (simp add: ns)
  have j: "joinWith [newline, newline] [?A, ''B''] = ?t" by simp
  have nl: "newline \<notin> set ?A" by (simp add: newline_def)
  have sp: "splitNewline ?t = [?A, [], ''B'']"
    using splitNewline_append[OF nl, of "newline # ''B''"] by (simp add: newline_def)
  have ne: "?t \<noteq> []" by simp
  have cm: "chunkMessage ?t defaultLimit = Some [?A, ''B'']"
    unfolding chunkMessage_def sp using ne by (simp add: chunkStep_eq defaultLimit_def)
  have f: "filter (\<lambda>chunk. trim chunk \<noteq> []) [?A, ''B''] = [?A, ''B'']"
    by (simp add: trim_def ns)
  have "postMessageBlocks [Some ?A, Some ''B''] = Some [?A, ''B'']"
    unfolding postMessageBlocks_def cp j tr Let_def using ne cm f by simp
  then show ?thesis using tr cp j by simp
qed

section \<open>Contributor summaries: the claims\<close>

text \<open>
  Claim C5, as the code has it. The summaries come out sorted by merged requests
  descending, then commits descending, then closed issues descending, then by name in the
  order of \<open>localeCompare\<close>, the collation of the runtime, one summary for each name. For
  every consistent collation the comparator is negative exactly when the first summary
  ranks before the second and zero exactly when the two tie; the ranking is irreflexive
  and transitive, of two summaries one ranks before the other or they tie, and no summary
  comes after one that it ranks before. Among summaries with equal counts the one whose
  name the collation puts first ranks first. When the collation takes no two different
  names for equal, the ranking is total on summaries with different names, so it is a
  strict total order, and the summaries come out strictly sorted by it.
\<close>

theorem contributor_ranking:
  "consistent localeCompare \<Longrightarrow>
   (let ms = buildMemberSummaries localeCompare cs mm mo io ic
    in sorted_wrt (\<lambda>a b. rankedBefore localeCompare a b \<or> tied localeCompare a b) ms \<and>
       sorted_wrt (\<lambda>a b. \<not> rankedBefore localeCompare b a) ms \<and>
       distinct (map member.name ms) \<and>
       (separates localeCompare \<longrightarrow> sorted_wrt (rankedBefore localeCompare) ms)) \<and>
   (compareMembers localeCompare a b < 0 \<longleftrightarrow> rankedBefore localeCompare a b) \<and>
   (compareMembers localeCompare a b = 0 \<longleftrightarrow> tied localeCompare a b) \<and>
   \<not> rankedBefore localeCompare a a \<and>
   (rankedBefore localeCompare a b \<and> rankedBefore localeCompare b c \<longrightarrow>
      rankedBefore localeCompare a c) \<and>
   (rankedBefore localeCompare a b \<or> rankedBefore localeCompare b a \<or> tied localeCompare a b) \<and>
   (separates localeCompare \<and> member.name a \<noteq> member.name b \<longrightarrow>
      rankedBefore localeCompare a b \<or> rankedBefore localeCompare b a) \<and>
   (mergedMrs a = mergedMrs b \<and> member.commits a = member.commits b \<and>
    member.issuesClosed a = member.issuesClosed b \<longrightarrow>
      (rankedBefore localeCompare a b \<longleftrightarrow>
         localeCompare (member.name a) (member.name b) < 0))"
proof -
  assume c: "consistent localeCompare"
  define xs where "xs = map (setCommitPct (length cs)) (countMembers cs mm mo io ic)"
  have ms: "buildMemberSummaries localeCompare cs mm mo io ic =
      sortBy (compareMembers localeCompare) xs"
    by (simp add: buildMemberSummaries_def Let_def xs_def)
  have d0: "distinct (map member.name xs)"
    using distinct_countMembers[of cs mm mo io ic] by (simp add: xs_def setCommitPct_def comp_def)
  have s1: "sorted_wrt (\<lambda>a b. rankedBefore localeCompare a b \<or> tied localeCompare a b)
      (sortBy (compareMembers localeCompare) xs)"
    by (rule sorted_members[OF c])
  have s2: "sorted_wrt (\<lambda>a b. \<not> rankedBefore localeCompare b a)
      (sortBy (compareMembers localeCompare) xs)"
    by (rule sorted_members_weak[OF c])
  have d: "distinct (map member.name (sortBy (compareMembers localeCompare) xs))"
    using d0 by (simp only: distinct_map_sortBy)
  have s3: "separates localeCompare \<longrightarrow>
      sorted_wrt (rankedBefore localeCompare) (sortBy (compareMembers localeCompare) xs)"
    using sorted_members_strict[OF c _ d0] by blast
  have t: "rankedBefore localeCompare a b \<and> rankedBefore localeCompare b c \<longrightarrow>
      rankedBefore localeCompare a c"
    using rankedBefore_trans[OF c, of a b c] by blast
  have l: "separates localeCompare \<and> member.name a \<noteq> member.name b \<longrightarrow>
      rankedBefore localeCompare a b \<or> rankedBefore localeCompare b a"
    using rankedBefore_total[OF c, of a b] by blast
  have e: "mergedMrs a = mergedMrs b \<and> member.commits a = member.commits b \<and>
    member.issuesClosed a = member.issuesClosed b \<longrightarrow>
      (rankedBefore localeCompare a b \<longleftrightarrow>
         localeCompare (member.name a) (member.name b) < 0)"
    by (simp add: rankedBefore_def)
  show ?thesis
    unfolding ms Let_def
    by (intro conjI s1 s2 d s3 t l e compareMembers_less compareMembers_zero
        rankedBefore_irrefl[OF c] rankedBefore_cases[OF c])
qed

theorem contributor_ranking_witness:
  "consistent sampleCollation \<and> separates sampleCollation \<and>
   sorted_wrt (rankedBefore sampleCollation)
     (buildMemberSummaries sampleCollation sampleCommits [commitBy ''Alice'']
        [commitBy ''Alice''] [] []) \<and>
   map member.name
     (buildMemberSummaries sampleCollation sampleCommits [commitBy ''Alice'']
        [commitBy ''Alice''] [] []) =
     [''Alice'', ''Bob''] \<and>
   compareMembers sampleCollation (newMember ''alice'') (newMember ''Bob'') < 0 \<and>
   rankedBefore sampleCollation (newMember ''alice'') (newMember ''Bob'') \<and>
   rankedBefore sampleCollation (newMember ''Bob'') (newMember ''Cy'') \<and>
   rankedBefore sampleCollation (newMember ''alice'') (newMember ''Cy'')"
proof -
  have r: "rankedBefore sampleCollation (newMember ''alice'') (newMember ''Bob'')"
    "rankedBefore sampleCollation (newMember ''Bob'') (newMember ''Cy'')"
    by (simp_all add: rankedBefore_def newMember_def sampleCollation_def lowerCase_def)
  show ?thesis
    using contributor_ranking [OF sampleCollation_consistent,
        of sampleCommits "[commitBy ''Alice'']" "[commitBy ''Alice'']" "[]" "[]"
        "newMember ''alice''" "newMember ''Bob''" "newMember ''Cy''"]
      scenario_members[of sampleCollation] sampleCollation_consistent sampleCollation_separates r
    by (simp add: Let_def)
qed

text \<open>
  The claim C5 as stated fails on one commit by Bob and one by alice: the two summaries
  are equal on all three counts and \<open>Bob\<close> is the lexicographically earlier name, yet a
  collation that compares letters before case, as the collations of the runtime do, puts
  the summary of alice first.
\<close>

theorem contributor_ranking_counterexample:
  "map member.name
     (buildMemberSummaries sampleCollation [commitBy ''Bob'', commitBy ''alice''] [] [] [] []) =
     [''alice'', ''Bob''] \<and>
   map member.commits
     (buildMemberSummaries sampleCollation [commitBy ''Bob'', commitBy ''alice''] [] [] [] []) =
     [1, 1] \<and>
   sampleCollation ''alice'' ''Bob'' = - 1 \<and>
   ''Bob'' < ''alice''"
proof -
  have c: "map member.commits
     (buildMemberSummaries sampleCollation [commitBy ''Bob'', commitBy ''alice''] [] [] [] []) =
     [1, 1]"
    by (simp add: buildMemberSummaries_def countMembers_def bump_def ensure_def newMember_def
      commitBy_def emptyItem_def resolveAuthorName_def authorField_def
      setCommitPct_def sortBy_def compareMembers_def Let_def sampleCollation_def
      lowerCase_def)
  have l: "''Bob'' < ''alice''" by simp
  show ?thesis by (intro conjI alice_Bob_members c sampleCollation_alice_Bob l)
qed

text \<open>
  Claim C6, as the code has it. Each contributor's commit count is the number of commits
  that resolve to the name, and the counts add up to the total. When the total is zero
  every percentage is zero. When it is positive, each percentage is
  \<open>Math.round((count / total) * 100)\<close> in double arithmetic: an integer at most one half
  away from \<open>100 * count / total\<close>, which is the integer rounding of that share unless the
  share is halfway between two integers, where the double product decides between the two.
  The percentages add up to 100 within rounding: the sum differs from 100 by at most one
  half for each contributor with a commit. The list of commits is an array, so it has
  fewer than \<open>2^32\<close> elements.
\<close>

theorem commit_percentages:
  "length cs < 2 ^ 32 \<Longrightarrow>
   (let ms = buildMemberSummaries localeCompare cs mm mo io ic; total = length cs
    in (\<forall>m \<in> set ms.
          member.commits m =
            length (filter (\<lambda>c. resolveAuthorName (Some c) = member.name m) cs)) \<and>
       sum_list (map member.commits ms) = total \<and>
       (total = 0 \<longrightarrow> (\<forall>m \<in> set ms. commitPct m = 0)) \<and>
       (0 < total \<longrightarrow>
          (\<forall>m \<in> set ms.
             commitPct m = roundedPercent (member.commits m) total \<and>
             \<bar>of_int (commitPct m) - 100 * of_nat (member.commits m) / of_nat total\<bar>
               \<le> (1 / 2 :: rat) \<and>
             (\<not> halfway (member.commits m) total \<longrightarrow>
                commitPct m = specPercent (member.commits m) total))) \<and>
       (0 < total \<longrightarrow>
          \<bar>of_int (sum_list (map commitPct ms)) - (100 :: rat)\<bar> \<le>
            of_nat (length (filter (\<lambda>m. member.commits m \<noteq> 0) ms)) / 2))"
proof -
  assume bound: "length cs < 2 ^ 32"
  define members where "members = countMembers cs mm mo io ic"
  define total where "total = length cs"
  define ms where "ms = buildMemberSummaries localeCompare cs mm mo io ic"
  have set_ms: "set ms = setCommitPct total ` set members"
    unfolding ms_def total_def members_def by (rule buildMemberSummaries_set)
  have ms_sort: "ms = sortBy (compareMembers localeCompare) (map (setCommitPct total) members)"
    by (simp add: ms_def buildMemberSummaries_def Let_def total_def members_def)
  have cnt: "\<forall>m \<in> set ms. member.commits m = commitCount cs (member.name m)"
    using commitsAre_countMembers[of cs mm mo io ic]
    unfolding set_ms members_def commitsAre_def by (auto simp: setCommitPct_def)
  have sum: "sum_list (map member.commits ms) = total"
  proof -
    have "sum_list (map member.commits ms) =
          sum_list (map member.commits (map (setCommitPct total) members))"
      unfolding ms_sort by (rule sum_list_sortBy)
    also have "map member.commits (map (setCommitPct total) members) = map member.commits members"
      by (simp add: setCommitPct_def)
    finally show ?thesis
      unfolding members_def total_def by (simp add: sum_commits_countMembers)
  qed
  have pct: "\<forall>m \<in> set ms. commitPct m =
      (if total \<noteq> 0 then roundedPercent (member.commits m) total else 0)"
    unfolding set_ms by (auto simp: setCommitPct_def)
  have small: "\<forall>m \<in> set ms. member.commits m < 2 ^ 32"
  proof
    fix m assume "m \<in> set ms"
    from member_le_sum[OF this] sum bound show "member.commits m < 2 ^ 32"
      by (simp add: total_def)
  qed
  have near: "0 < total \<Longrightarrow> \<forall>m \<in> set ms.
      \<bar>of_int (commitPct m) - 100 * of_nat (member.commits m) / of_nat total\<bar> \<le> (1 / 2 :: rat)"
  proof
    fix m assume t: "0 < total" and m: "m \<in> set ms"
    have "commitPct m = roundedPercent (member.commits m) total" using pct m t by simp
    then show "\<bar>of_int (commitPct m) - 100 * of_nat (member.commits m) / of_nat total\<bar> \<le> (1 / 2 :: rat)"
      using roundedPercent_nearest[OF t, of "member.commits m"] small m by simp
  qed
  have exact: "0 < total \<Longrightarrow> \<forall>m \<in> set ms.
      \<not> halfway (member.commits m) total \<longrightarrow> commitPct m = specPercent (member.commits m) total"
  proof (intro ballI impI)
    fix m assume t: "0 < total" and m: "m \<in> set ms"
      and h: "\<not> halfway (member.commits m) total"
    have "commitPct m = roundedPercent (member.commits m) total" using pct m t by simp
    moreover have "member.commits m < 2 ^ 32" using small m by simp
    ultimately show "commitPct m = specPercent (member.commits m) total"
      using roundedPercent_exact[OF t _ h] by simp
  qed
  have total_err: "\<bar>of_int (sum_list (map commitPct ms)) - (100 :: rat)\<bar> \<le>
            of_nat (length (filter (\<lambda>m. member.commits m \<noteq> 0) ms)) / 2" if t: "0 < total"
  proof -
    have each: "\<forall>m \<in> set ms.
        \<bar>of_int (commitPct m) - 100 * of_nat (member.commits m) / (of_nat total :: rat)\<bar> \<le>
        (if member.commits m \<noteq> 0 then 1 / 2 else 0)"
    proof
      fix m assume m: "m \<in> set ms"
      show "\<bar>of_int (commitPct m) - 100 * of_nat (member.commits m) / (of_nat total :: rat)\<bar> \<le>
        (if member.commits m \<noteq> 0 then 1 / 2 else 0)"
      proof (cases "member.commits m = 0")
        case True
        then have "commitPct m = 0" using pct m by simp
        then show ?thesis using True by simp
      next
        case False
        then show ?thesis using near[OF t] m by simp
      qed
    qed
    have "sum_list (map (\<lambda>m. 100 * of_nat (member.commits m) / (of_nat total :: rat)) ms) = 100"
      unfolding sum_list_share sum using t by simp
    with sum_error[OF each] show ?thesis by simp
  qed
  show ?thesis
    unfolding Let_def ms_def[symmetric] total_def[symmetric]
    using cnt sum pct near exact total_err by (simp add: commitCount_def)
qed

theorem commit_percentages_witness:
  "length sampleCommits < 2 ^ 32 \<and> 0 < length sampleCommits \<and>
   map commitPct
     (buildMemberSummaries sampleCollation sampleCommits [commitBy ''Alice'']
        [commitBy ''Alice''] [] []) =
     [60, 40] \<and>
   map commitPct
     (buildMemberSummaries sampleCollation sampleCommits [commitBy ''Alice'']
        [commitBy ''Alice''] [] []) =
     [specPercent 3 5, specPercent 2 5] \<and>
   \<not> halfway 3 5 \<and> \<not> halfway 2 5 \<and>
   \<bar>of_int (sum_list (map commitPct
       (buildMemberSummaries sampleCollation sampleCommits [commitBy ''Alice'']
          [commitBy ''Alice''] [] [])))
     - (100 :: rat)\<bar> \<le> 1 \<and>
   map commitPct (buildMemberSummaries sampleCollation [] [commitBy ''Alice''] [] [] []) = [0]"
proof -
  have l: "length sampleCommits < 2 ^ 32" "0 < length sampleCommits"
    by (simp_all add: sampleCommits_def)
  have l0: "length ([] :: item list) < 2 ^ 32" by simp
  have e: "buildMemberSummaries sampleCollation [] [commitBy ''Alice''] [] [] [] =
      [(newMember ''Alice'')\<lparr>mergedMrs := 1\<rparr>]"
    by (simp add: buildMemberSummaries_def countMembers_def bump_def ensure_def newMember_def
        commitBy_def emptyItem_def resolveAuthorName_def authorField_def setCommitPct_def
        sortBy_def Let_def)
  have f: "\<lfloor>100 * 3 / 5 :: rat\<rfloor> = 60" "\<lfloor>100 * 2 / 5 :: rat\<rfloor> = 40"
    by (simp_all add: floor_eq_iff)
  have h: "\<not> halfway 3 5" "\<not> halfway 2 5"
    using f by (simp_all add: halfway_def Let_def)
  have s: "specPercent 3 5 = 60" "specPercent 2 5 = 40"
    by (simp_all add: specPercent_def mathRound_def floor_eq_iff)
  show ?thesis
    using commit_percentages [OF l(1), of sampleCollation "[commitBy ''Alice'']"
        "[commitBy ''Alice'']" "[]" "[]"]
      commit_percentages [OF l0, of sampleCollation "[commitBy ''Alice'']" "[]" "[]" "[]"]
      l scenario_members[of sampleCollation] e h s
    by (simp add: Let_def newMember_def)
qed

text \<open>
  The claim C6 as stated fails on forty commits of which Ann made twenty-three: her share
  is 57.5 percent, whose integer rounding is 58, and the code gives her 57, since the
  quotient and the product are rounded to doubles and the product comes out below 57.5.
\<close>

theorem commit_percentages_counterexample:
  "length tieCommits = 40 \<and>
   map member.name (buildMemberSummaries sampleCollation tieCommits [] [] [] []) =
     [''Ann'', ''Bob''] \<and>
   map member.commits (buildMemberSummaries sampleCollation tieCommits [] [] [] []) =
     [23, 17] \<and>
   map commitPct (buildMemberSummaries sampleCollation tieCommits [] [] [] []) = [57, 43] \<and>
   roundedPercent 23 40 = 57 \<and>
   specPercent 23 40 = 58"
proof -
  have l: "length tieCommits = 40" by (simp add: tieCommits_def)
  show ?thesis
    unfolding tie_members[of sampleCollation]
    using l roundedPercent_tie specPercent_tie by simp
qed
section \<open>Velocity highlights: the claim\<close>




section \<open>Major features: the claim\<close>

text \<open>
  Claim C8, as the code has it. The sort key of a request is its \<open>merged_at\<close>; only a
  request without it is ranked by \<open>updated_at\<close>, and only one without both by
  \<open>created_at\<close>. When every request has a key, the block lists the first five requests
  in descending order of the key, and no request left out has a later key than a listed
  one. The block is absent for an empty list. A line is the title, as a link when the
  request has a URL, followed by the repository name in parentheses when it has one: a
  linked title with the name, a linked title alone, a plain title with the name, or a
  plain title alone.
\<close>

theorem major_features_order:
  "((\<forall>mr \<in> set mrs. timeKey mr \<noteq> None) \<longrightarrow>
     (let shown = majorFeaturesTop mrs; others = drop 5 (sortBy compareMrTime mrs)
      in length shown = min 5 (length mrs) \<and>
         (\<forall>x. count_list (shown @ others) x = count_list mrs x) \<and>
         sorted_wrt (\<lambda>a b. the (timeKey b) \<le> the (timeKey a)) shown \<and>
         (\<forall>y \<in> set shown. \<forall>x \<in> set others. the (timeKey x) \<le> the (timeKey y)))) \<and>
   formatMajorFeatures mrs =
     (if mrs = [] then None
      else Some (joinWith [newline]
             ((''**'' @ glyphSparkles @ '' Major Features Shipped**'') #
              map featureLine (majorFeaturesTop mrs)))) \<and>
   (merged_at mr = Some t \<longrightarrow> timeKey mr = Some t) \<and>
   (merged_at mr = None \<and> updated_at mr = Some t \<longrightarrow> timeKey mr = Some t) \<and>
   (merged_at mr = None \<and> updated_at mr = None \<longrightarrow> timeKey mr = created_at mr) \<and>
   (title mr = Some ti \<and> ti \<noteq> [] \<and> web_url mr = Some url \<and> url \<noteq> [] \<and>
    item.projectName mr = Some pn \<and> pn \<noteq> [] \<longrightarrow>
      featureLine mr = bullet @ '' ['' @ ti @ '']('' @ url @ '') ('' @ pn @ '')'') \<and>
   (title mr = Some ti \<and> ti \<noteq> [] \<and> web_url mr = Some url \<and> url \<noteq> [] \<and>
    \<not> truthy (item.projectName mr) \<longrightarrow>
      featureLine mr = bullet @ '' ['' @ ti @ '']('' @ url @ '')'') \<and>
   (title mr = Some ti \<and> ti \<noteq> [] \<and> \<not> truthy (web_url mr) \<and>
    item.projectName mr = Some pn \<and> pn \<noteq> [] \<longrightarrow>
      featureLine mr = bullet @ '' '' @ ti @ '' ('' @ pn @ '')'') \<and>
   (title mr = Some ti \<and> ti \<noteq> [] \<and> \<not> truthy (web_url mr) \<and>
    \<not> truthy (item.projectName mr) \<longrightarrow>
      featureLine mr = bullet @ '' '' @ ti)"
proof -
  have f: "formatMajorFeatures mrs =
     (if mrs = [] then None
      else Some (joinWith [newline]
             ((''**'' @ glyphSparkles @ '' Major Features Shipped**'') #
              map featureLine (majorFeaturesTop mrs))))"
    by (simp add: formatMajorFeatures_def)
  have k: "(merged_at mr = Some t \<longrightarrow> timeKey mr = Some t) \<and>
   (merged_at mr = None \<and> updated_at mr = Some t \<longrightarrow> timeKey mr = Some t) \<and>
   (merged_at mr = None \<and> updated_at mr = None \<longrightarrow> timeKey mr = created_at mr)"
    by (simp add: timeKey_def)
  have r1: "title mr = Some ti \<and> ti \<noteq> [] \<and> web_url mr = Some url \<and> url \<noteq> [] \<and>
    item.projectName mr = Some pn \<and> pn \<noteq> [] \<longrightarrow>
      featureLine mr = bullet @ '' ['' @ ti @ '']('' @ url @ '') ('' @ pn @ '')''"
    by (simp add: featureLine_def)
  have r2: "title mr = Some ti \<and> ti \<noteq> [] \<and> web_url mr = Some url \<and> url \<noteq> [] \<and>
    \<not> truthy (item.projectName mr) \<longrightarrow>
      featureLine mr = bullet @ '' ['' @ ti @ '']('' @ url @ '')''"
    by (auto simp: featureLine_def truthy_def split: option.splits)
  have r3: "title mr = Some ti \<and> ti \<noteq> [] \<and> \<not> truthy (web_url mr) \<and>
    item.projectName mr = Some pn \<and> pn \<noteq> [] \<longrightarrow>
      featureLine mr = bullet @ '' '' @ ti @ '' ('' @ pn @ '')''"
    by (auto simp: featureLine_def truthy_def split: option.splits)
  have r4: "title mr = Some ti \<and> ti \<noteq> [] \<and> \<not> truthy (web_url mr) \<and>
    \<not> truthy (item.projectName mr) \<longrightarrow> featureLine mr = bullet @ '' '' @ ti"
    by (auto simp: featureLine_def truthy_def split: option.splits)
  show ?thesis using major_features_sorted[of mrs] f k r1 r2 r3 r4 by blast
qed

theorem major_features_order_witness:
  "timeKey mrA \<noteq> None \<and> timeKey mrB \<noteq> None \<and>
   majorFeaturesTop [mrA, mrB] = [mrB, mrA] \<and>
   sorted_wrt (\<lambda>a b. the (timeKey b) \<le> the (timeKey a)) (majorFeaturesTop [mrA, mrB]) \<and>
   timeKey mrA = Some 2000 \<and>
   featureLine mrA = bullet @ '' [Add login](https://example.com/mr/1) (web)'' \<and>
   featureLine (emptyItem\<lparr>title := Some ''Add login'',
                          web_url := Some ''https://example.com/mr/1''\<rparr>) =
     bullet @ '' [Add login](https://example.com/mr/1)'' \<and>
   featureLine (emptyItem\<lparr>title := Some ''Add login'', item.projectName := Some ''web''\<rparr>) =
     bullet @ '' Add login (web)'' \<and>
   featureLine (emptyItem\<lparr>title := Some ''Add login''\<rparr>) = bullet @ '' Add login'' \<and>
   timeKey (emptyItem\<lparr>updated_at := Some 5\<rparr>) = Some 5 \<and>
   timeKey (emptyItem\<lparr>created_at := Some 7\<rparr>) = Some 7"
proof -
  have k: "\<forall>mr \<in> set [mrA, mrB]. timeKey mr \<noteq> None"
    by (simp add: timeKey_def mrA_def mrB_def emptyItem_def)
  have a: "merged_at mrA = Some 2000" "title mrA = Some ''Add login''"
    "web_url mrA = Some ''https://example.com/mr/1''" "item.projectName mrA = Some ''web''"
    by (simp_all add: mrA_def emptyItem_def)
  have b: "timeKey mrB = Some 3000" "timeKey mrA = Some 2000"
    by (simp_all add: timeKey_def mrA_def mrB_def emptyItem_def)
  show ?thesis
    using major_features_order [of "[mrA, mrB]" mrA 2000 "''Add login''"
        "''https://example.com/mr/1''" "''web''"]
      major_features_order [of "[]"
        "emptyItem\<lparr>title := Some ''Add login'', web_url := Some ''https://example.com/mr/1''\<rparr>"
        0 "''Add login''" "''https://example.com/mr/1''"]
      major_features_order [of "[]"
        "emptyItem\<lparr>title := Some ''Add login'', item.projectName := Some ''web''\<rparr>"
        0 "''Add login''" "[]" "''web''"]
      major_features_order [of "[]" "emptyItem\<lparr>title := Some ''Add login''\<rparr>" 0 "''Add login''"]
      major_features_order [of "[]" "emptyItem\<lparr>updated_at := Some 5\<rparr>" 5]
      major_features_order [of "[]" "emptyItem\<lparr>created_at := Some 7\<rparr>" 7]
      k a b top_BA
    by (simp add: Let_def emptyItem_def truthy_def)
qed

text \<open>
  The claim C8 as stated fails on two merged requests of which the one merged earlier was
  updated last: the most recent of its three timestamps is the later one, yet it is
  listed second.
\<close>

theorem major_features_order_counterexample:
  "mostRecent mrA = Some 9000 \<and> mostRecent mrB = Some 3000 \<and>
   majorFeaturesTop [mrA, mrB] = [mrB, mrA] \<and>
   formatMajorFeatures [mrA, mrB] =
     Some (''**'' @ glyphSparkles @ '' Major Features Shipped**'' @ [newline] @
           bullet @ '' [Fix logout](https://example.com/mr/2) (web)'' @ [newline] @
           bullet @ '' [Add login](https://example.com/mr/1) (web)'')"
proof -
  have m: "mostRecent mrA = Some 9000" "mostRecent mrB = Some 3000"
    by (simp_all add: mostRecent_def mrA_def mrB_def emptyItem_def List.map_filter_simps)
  have l: "featureLine mrA = bullet @ '' [Add login](https://example.com/mr/1) (web)''"
    "featureLine mrB = bullet @ '' [Fix logout](https://example.com/mr/2) (web)''"
    by (simp_all add: featureLine_def mrA_def mrB_def emptyItem_def)
  have f: "formatMajorFeatures [mrA, mrB] =
     Some (''**'' @ glyphSparkles @ '' Major Features Shipped**'' @ [newline] @
           bullet @ '' [Fix logout](https://example.com/mr/2) (web)'' @ [newline] @
           bullet @ '' [Add login](https://example.com/mr/1) (web)'')"
    unfolding formatMajorFeatures_def top_BA by (simp add: l)
  show ?thesis using m top_BA f by blast
qed

section \<open>No active repository: the claim\<close>

text \<open>
  Claim C2, as the code has it. When no repository is active the summary line is exactly
  \<open>No activity recorded in the selected window.\<close>, and the per-organization, major
  features, velocity highlights and commit breakdown blocks are absent. The bug activity
  block is not: \<open>formatBugActivity\<close> never returns \<open>null\<close>, and on empty input it gives
  its header, a table of zeros and the line that no bug activity was recorded; likewise
  \<open>formatTeamMembers\<close> gives its heading and the line that no member activity was
  captured. Both are among the blocks posted. The functions that return \<open>null\<close> on
  empty input are \<open>formatOrgSummary\<close>, \<open>formatMajorFeatures\<close>, \<open>formatRepoTable\<close> and
  \<open>formatInactiveSummary\<close> (an empty list), \<open>formatCommitBreakdown\<close> (no commits) and
  \<open>formatVelocityHighlights\<close> (no merged requests, commits or closed issues).
\<close>

theorem no_active_repositories:
  "(filter hasActivity results = [] \<longrightarrow>
      summaryLine (buildReport localeCompare cfg isClientProject results) =
        ''No activity recorded in the selected window.'' \<and>
      internalBlock (buildReport localeCompare cfg isClientProject results) = None \<and>
      clientBlock (buildReport localeCompare cfg isClientProject results) = None \<and>
      majorFeaturesBlock (buildReport localeCompare cfg isClientProject results) = None \<and>
      velocityHighlightBlock (buildReport localeCompare cfg isClientProject results) = None \<and>
      commitBreakdownBlock (buildReport localeCompare cfg isClientProject results) = None \<and>
      bugActivityBlock (buildReport localeCompare cfg isClientProject results) = emptyBugActivity \<and>
      teamMembersBlock (buildReport localeCompare cfg isClientProject results) = emptyTeamMembers \<and>
      emptyBugActivity \<in> set (organizationalBlocks (buildReport localeCompare cfg isClientProject results)) \<and>
      emptyTeamMembers \<in> set (teamBlocks (buildReport localeCompare cfg isClientProject results))) \<and>
   formatOrgSummary localeCompare label [] = None \<and>
   formatMajorFeatures [] = None \<and>
   formatRepoTable localeCompare [] totalMRMerged totalCommits = None \<and>
   formatInactiveSummary [] = None \<and>
   formatCommitBreakdown members 0 = None \<and>
   formatVelocityHighlights 0 totalMROpened 0 0 merged multi = None \<and>
   formatBugActivity [] [] = emptyBugActivity \<and>
   formatTeamMembers [] ''**Team Members Metrics**'' = emptyTeamMembers"
proof -
  have g: "formatOrgSummary localeCompare label [] = None" "formatMajorFeatures [] = None"
    "formatRepoTable localeCompare [] totalMRMerged totalCommits = None" "formatInactiveSummary [] = None"
    "formatCommitBreakdown members 0 = None"
    "formatVelocityHighlights 0 totalMROpened 0 0 merged multi = None"
    by (simp_all add: formatOrgSummary_def formatMajorFeatures_def formatRepoTable_def
        formatInactiveSummary_def formatCommitBreakdown_def formatVelocityHighlights_def)
  show ?thesis
    using g report_without_activity[of results localeCompare cfg isClientProject]
      formatBugActivity_empty formatTeamMembers_empty
    by blast
qed

theorem no_active_repositories_witness:
  "filter hasActivity [idleProject] = [] \<and>
   summaryLine (buildReport sampleCollation sampleConfig noClient [idleProject]) =
     ''No activity recorded in the selected window.'' \<and>
   internalBlock (buildReport sampleCollation sampleConfig noClient [idleProject]) = None \<and>
   clientBlock (buildReport sampleCollation sampleConfig noClient [idleProject]) = None \<and>
   majorFeaturesBlock (buildReport sampleCollation sampleConfig noClient [idleProject]) = None \<and>
   velocityHighlightBlock (buildReport sampleCollation sampleConfig noClient [idleProject]) = None \<and>
   commitBreakdownBlock (buildReport sampleCollation sampleConfig noClient [idleProject]) = None \<and>
   bugActivityBlock (buildReport sampleCollation sampleConfig noClient [idleProject]) = emptyBugActivity"
  using no_active_repositories [of "[idleProject]" sampleCollation sampleConfig noClient] idle_inactive
  by simp

text \<open>
  The claim C2 as stated fails on a run with one repository that has no activity: the
  bug activity block is built from two empty lists, it is a header with a table and a
  closing line, and it is among the blocks of the first message.
\<close>

theorem no_active_repositories_counterexample:
  "filter hasActivity [idleProject] = [] \<and>
   formatBugActivity [] [] =
     ''**'' @ glyphBug @ '' Bug Activity**'' @ [newline] @
     ''```text'' @ [newline] @
     ''Fixed           0 issues'' @ [newline] @
     ''Same-day fixes  0'' @ [newline] @
     ''Opened          0 issues'' @ [newline] @
     ''```'' @ [newline] @
     ''_No bug activity recorded in this window._'' \<and>
   bugActivityBlock (buildReport sampleCollation sampleConfig noClient [idleProject]) = formatBugActivity [] [] \<and>
   formatBugActivity [] [] \<in>
     set (organizationalBlocks (buildReport sampleCollation sampleConfig noClient [idleProject])) \<and>
   formatTeamMembers [] ''**Team Members Metrics**'' =
     ''**Team Members Metrics**'' @ [newline] @
     ''_No member activity captured in this window._''"
proof -
  note r = report_without_activity [OF idle_inactive, of sampleCollation sampleConfig noClient]
  have b: "formatBugActivity [] [] =
     ''**'' @ glyphBug @ '' Bug Activity**'' @ [newline] @
     ''```text'' @ [newline] @
     ''Fixed           0 issues'' @ [newline] @
     ''Same-day fixes  0'' @ [newline] @
     ''Opened          0 issues'' @ [newline] @
     ''```'' @ [newline] @
     ''_No bug activity recorded in this window._''"
    unfolding formatBugActivity_empty emptyBugActivity_def ..
  have t: "formatTeamMembers [] ''**Team Members Metrics**'' =
     ''**Team Members Metrics**'' @ [newline] @
     ''_No member activity captured in this window._''"
    unfolding formatTeamMembers_empty emptyTeamMembers_def ..
  have m: "bugActivityBlock (buildReport sampleCollation sampleConfig noClient [idleProject]) =
      formatBugActivity [] []"
    using r by (simp only: formatBugActivity_empty)
  have i: "formatBugActivity [] [] \<in>
     set (organizationalBlocks (buildReport sampleCollation sampleConfig noClient [idleProject]))"
    using r by (simp only: formatBugActivity_empty)
  show ?thesis by (intro conjI idle_inactive b m i t)
qed


end
